theory Spec2Isabelle
  imports Main "HOL-Library.Word"
begin

unbundle bit_operations_syntax

section \<open>The terminal front end of doomgeneric: frame renderer and key queue\<close>

text \<open>
  A shallow embedding of \<^verbatim>\<open>src/doomgeneric_ascii.c\<close> (with the two resolution
  globals of \<^verbatim>\<open>src/doomgeneric.c\<close>). Every C function that touches the globals
  takes the record of globals and returns the updated record. An access outside an
  array is undefined behaviour in C; the model returns the fault \<open>OutOfBounds\<close>
  there, so a theorem that a call returns \<open>Inr\<close> also says that every access of
  the call was inside its array.
\<close>

subsection \<open>Data\<close>

datatype fault = OutOfBounds

text \<open>\<^verbatim>\<open>struct color_t\<close>: four 8-bit fields of one 32-bit pixel.\<close>

record color_t =
  pixel_b :: "8 word"
  pixel_g :: "8 word"
  pixel_r :: "8 word"
  pixel_a :: "8 word"

text \<open>
  The globals of the two files. \<open>output_buffer\<close> is the block that \<^verbatim>\<open>DG_Init\<close>
  allocates (its length is \<^verbatim>\<open>output_buffer_size\<close>); \<open>DG_ScreenBuffer\<close> is the block
  the host allocates, read through \<^verbatim>\<open>struct color_t *\<close>; \<open>stdout\<close> is the byte
  stream written by \<^verbatim>\<open>printf\<close> so far. The initialiser of \<open>keyHoldKeys\<close> names
  seven key codes of \<^verbatim>\<open>doomkeys.h\<close>, a header that is not part of the sources at
  hand: the table is a field whose contents the theorems quantify over.
  The \<^verbatim>\<open>unsigned\<close> loop counters of the renderer stay below the resolution they
  are compared with and the hold counters are only decremented while positive, so
  neither wraps: they are \<open>nat\<close> and \<open>int\<close>. The queue cursors are reduced modulo
  the queue size as unsigned 32-bit values.
\<close>

record globals =
  DOOMGENERIC_RESX :: nat
  DOOMGENERIC_RESY :: nat
  DG_ScreenBuffer :: "color_t list"
  output_buffer :: "char list"
  stdout :: "char list"
  s_KeyQueue :: "16 word list"
  s_KeyQueueWriteIndex :: "32 word"
  s_KeyQueueReadIndex :: "32 word"
  keyHoldKeys :: "8 word list"
  keyHold :: "int list"

definition GRAD_LEN :: "32 word" where
  "GRAD_LEN = 70"

definition KEYQUEUE_SIZE :: "32 word" where
  "KEYQUEUE_SIZE = 16"

definition KEY_HOLD_KEYS :: nat where
  "KEY_HOLD_KEYS = 7"

definition KEY_HOLD_FRAMES :: int where
  "KEY_HOLD_FRAMES = 2"

text \<open>
  \<^verbatim>\<open>static const char grad[]\<close>: the 70 glyphs of the string literal and its
  terminating NUL, 71 bytes.
\<close>

definition grad :: "char list" where
  "grad = '' .'' @ [CHR 0x27, CHR 0x60] @ ''^'' @ [CHR 0x22] @ '',:;Il!i><~+_-?][}{1)(|''
     @ [CHR 0x5C] @ ''/tfjrxnuvczXYUJCLQ0OZmwqpdbkhao*#MW&8%B@$'' @ [CHR 0x00]"

subsection \<open>The renderer\<close>

text \<open>\<^verbatim>\<open>pixel->r + pixel->g + pixel->b\<close>, each field promoted to 32 bits.\<close>

definition brightness :: "color_t \<Rightarrow> 32 word" where
  "brightness px = ucast (pixel_r px) + ucast (pixel_g px) + ucast (pixel_b px)"

text \<open>\<^verbatim>\<open>(...) * GRAD_LEN / 766u\<close> in unsigned 32-bit arithmetic.\<close>

definition ramp_index :: "32 word \<Rightarrow> 32 word" where
  "ramp_index br = br * GRAD_LEN div 766"

text \<open>\<^verbatim>\<open>grad[i]\<close>.\<close>

definition grad_at :: "32 word \<Rightarrow> fault + char" where
  "grad_at i = (if unat i < length grad then Inr (grad ! unat i) else Inl OutOfBounds)"

text \<open>\<^verbatim>\<open>*buf = c\<close> where \<open>buf\<close> points \<open>k\<close> bytes into the block \<open>mem\<close>.\<close>

definition put_byte :: "char list \<Rightarrow> nat \<Rightarrow> char \<Rightarrow> fault + char list" where
  "put_byte mem k c = (if k < length mem then Inr (mem[k := c]) else Inl OutOfBounds)"

text \<open>
  The inner loop of \<^verbatim>\<open>DG_DrawFrame\<close>: \<open>pixel\<close> and \<open>buf\<close> are the offsets of the
  two pointers into the screen buffer and the output buffer.
\<close>

function draw_cols ::
  "nat \<Rightarrow> color_t list \<Rightarrow> nat \<Rightarrow> nat \<Rightarrow> char list \<Rightarrow> nat \<Rightarrow> fault + (nat \<times> char list \<times> nat)"
where
  "draw_cols resx scr col pixel mem buf =
     (if col < resx then
        (if pixel < length scr then
           (case grad_at (ramp_index (brightness (scr ! pixel))) of
              Inl e \<Rightarrow> Inl e
            | Inr v_char \<Rightarrow>
                (case put_byte mem buf v_char of
                   Inl e \<Rightarrow> Inl e
                 | Inr mem1 \<Rightarrow>
                     (case put_byte mem1 (buf + 1) v_char of
                        Inl e \<Rightarrow> Inl e
                      | Inr mem2 \<Rightarrow> draw_cols resx scr (col + 1) (pixel + 1) mem2 (buf + 2))))
         else Inl OutOfBounds)
      else Inr (pixel, mem, buf))"
  by pat_completeness auto
termination
  by (relation "measure (\<lambda>(resx, scr, col, pixel, mem, buf). resx - col)") auto

text \<open>The outer loop: one row of glyphs, then \<^verbatim>\<open>*buf++ = '\n'\<close>.\<close>

function draw_rows ::
  "nat \<Rightarrow> nat \<Rightarrow> color_t list \<Rightarrow> nat \<Rightarrow> nat \<Rightarrow> char list \<Rightarrow> nat
     \<Rightarrow> fault + (nat \<times> char list \<times> nat)"
where
  "draw_rows resx resy scr row pixel mem buf =
     (if row < resy then
        (case draw_cols resx scr 0 pixel mem buf of
           Inl e \<Rightarrow> Inl e
         | Inr (pixel1, mem1, buf1) \<Rightarrow>
             (case put_byte mem1 buf1 (CHR 0x0A) of
                Inl e \<Rightarrow> Inl e
              | Inr mem2 \<Rightarrow> draw_rows resx resy scr (row + 1) pixel1 mem2 (buf1 + 1)))
      else Inr (pixel, mem, buf))"
  by pat_completeness auto
termination
  by (relation "measure (\<lambda>(resx, resy, scr, row, pixel, mem, buf). resy - row)") auto

text \<open>
  \<^verbatim>\<open>printf("%s", output_buffer)\<close> writes the bytes before the first NUL of the block;
  a block without a NUL is read past its end.
\<close>

definition printf_s :: "char list \<Rightarrow> fault + char list" where
  "printf_s mem =
     (if CHR 0x00 \<in> set mem then Inr (takeWhile (\<lambda>c. c \<noteq> CHR 0x00) mem)
      else Inl OutOfBounds)"

text \<open>\<^verbatim>\<open>memset(output_buffer, '\0', n)\<close>.\<close>

definition memset0 :: "char list \<Rightarrow> nat \<Rightarrow> fault + char list" where
  "memset0 mem n =
     (if n \<le> length mem then Inr (replicate n (CHR 0x00) @ drop n mem) else Inl OutOfBounds)"

subsection \<open>The key queue\<close>

text \<open>
  \<^verbatim>\<open>addKeyToQueue\<close>: \<open>pressed\<close> is an \<^verbatim>\<open>int\<close>, \<open>key\<close> an \<^verbatim>\<open>unsigned char\<close>; the
  packed value is cut to the 16 bits of \<^verbatim>\<open>unsigned short\<close>.
\<close>

definition addKeyToQueue :: "32 word \<Rightarrow> 8 word \<Rightarrow> globals \<Rightarrow> fault + globals" where
  "addKeyToQueue pressed key s =
     (let keyData = (ucast (push_bit 8 pressed OR ucast key) :: 16 word) in
      if s_KeyQueueWriteIndex s < KEYQUEUE_SIZE then
        Inr (s\<lparr>s_KeyQueue := (s_KeyQueue s)[unat (s_KeyQueueWriteIndex s) := keyData],
               s_KeyQueueWriteIndex := (s_KeyQueueWriteIndex s + 1) mod KEYQUEUE_SIZE\<rparr>)
      else Inl OutOfBounds)"

text \<open>The loop of \<^verbatim>\<open>pressKey\<close>, which leaves at the first matching table entry.\<close>

function pressKey_loop :: "nat \<Rightarrow> 8 word \<Rightarrow> globals \<Rightarrow> globals" where
  "pressKey_loop j key s =
     (if j < KEY_HOLD_KEYS then
        (if keyHoldKeys s ! j = key then s\<lparr>keyHold := (keyHold s)[j := KEY_HOLD_FRAMES]\<rparr>
         else pressKey_loop (j + 1) key s)
      else s)"
  by pat_completeness auto
termination
  by (relation "measure (\<lambda>(j, key, s). KEY_HOLD_KEYS - j)") auto

definition pressKey :: "8 word \<Rightarrow> globals \<Rightarrow> fault + globals" where
  "pressKey key s =
     (case addKeyToQueue 1 key s of
        Inl e \<Rightarrow> Inl e
      | Inr s1 \<Rightarrow> Inr (pressKey_loop 0 key s1))"

text \<open>The loop of \<^verbatim>\<open>decrementKeyCtrs\<close>.\<close>

function decrementKeyCtrs_loop :: "nat \<Rightarrow> globals \<Rightarrow> fault + globals" where
  "decrementKeyCtrs_loop i s =
     (if i < KEY_HOLD_KEYS then
        (if keyHold s ! i > 0 then
           (let s1 = s\<lparr>keyHold := (keyHold s)[i := keyHold s ! i - 1]\<rparr> in
            if keyHold s1 ! i = 0 then
              (case addKeyToQueue 0 (keyHoldKeys s1 ! i) s1 of
                 Inl e \<Rightarrow> Inl e
               | Inr s2 \<Rightarrow> decrementKeyCtrs_loop (i + 1) s2)
            else decrementKeyCtrs_loop (i + 1) s1)
         else decrementKeyCtrs_loop (i + 1) s)
      else Inr s)"
  by pat_completeness auto
termination
  by (relation "measure (\<lambda>(i, s). KEY_HOLD_KEYS - i)") auto

definition decrementKeyCtrs :: "globals \<Rightarrow> fault + globals" where
  "decrementKeyCtrs s = decrementKeyCtrs_loop 0 s"

text \<open>
  \<^verbatim>\<open>DG_GetKey\<close>. The arguments \<open>pressed\<close> and \<open>doomKey\<close> are the contents of the two
  locations the caller passes; the result is the return value, the contents of the
  two locations afterwards, and the globals.
\<close>

definition DG_GetKey ::
  "32 word \<Rightarrow> 8 word \<Rightarrow> globals \<Rightarrow> fault + (32 word \<times> 32 word \<times> 8 word \<times> globals)"
where
  "DG_GetKey pressed doomKey s =
     (if s_KeyQueueReadIndex s = s_KeyQueueWriteIndex s then Inr (0, pressed, doomKey, s)
      else if s_KeyQueueReadIndex s < KEYQUEUE_SIZE then
        (let keyData = s_KeyQueue s ! unat (s_KeyQueueReadIndex s);
             s1 = s\<lparr>s_KeyQueueReadIndex := (s_KeyQueueReadIndex s + 1) mod KEYQUEUE_SIZE\<rparr>
         in Inr (1, ucast (drop_bit 8 keyData), ucast (keyData AND 0xFF), s1))
      else Inl OutOfBounds)"

subsection \<open>One frame\<close>

text \<open>
  \<^verbatim>\<open>DG_DrawFrame\<close>: fill the output buffer, print it, clear the bytes written and one
  more, and age the hold counters. (\<^verbatim>\<open>EM_ASM(draw_frame())\<close> calls into the host
  page and touches none of these globals.)
\<close>

definition DG_DrawFrame :: "globals \<Rightarrow> fault + globals" where
  "DG_DrawFrame s =
     (case draw_rows (DOOMGENERIC_RESX s) (DOOMGENERIC_RESY s) (DG_ScreenBuffer s) 0 0
             (output_buffer s) 0 of
        Inl e \<Rightarrow> Inl e
      | Inr (pixel, mem, buf) \<Rightarrow>
          (case printf_s mem of
             Inl e \<Rightarrow> Inl e
           | Inr text \<Rightarrow>
               (case memset0 mem (buf + 1) of
                  Inl e \<Rightarrow> Inl e
                | Inr mem1 \<Rightarrow>
                    decrementKeyCtrs (s\<lparr>output_buffer := mem1, stdout := stdout s @ text\<rparr>))))"

subsection \<open>The index formula of the specification\<close>

text \<open>
  The specification gives the index as \<^verbatim>\<open>brightness * RAMP_LEN / (3 * 255)\<close>; this
  definition follows those words, to be compared with \<open>ramp_index\<close>, which follows
  the source.
\<close>

definition spec_ramp_index :: "32 word \<Rightarrow> 32 word" where
  "spec_ramp_index br = br * GRAD_LEN div (3 * 255)"

subsection \<open>Observing the key queue\<close>

text \<open>
  The event that \<^verbatim>\<open>DG_GetKey\<close> decodes from a queue slot: \<^verbatim>\<open>keyData >> 8\<close> and
  \<^verbatim>\<open>keyData & 0xFF\<close>.
\<close>

definition event_of :: "16 word \<Rightarrow> 32 word \<times> 8 word" where
  "event_of keyData = (ucast (drop_bit 8 keyData), ucast (keyData AND 0xFF))"

text \<open>
  The events waiting in the queue, oldest first: the slots from the read cursor up to
  the write cursor, going round the ring.
\<close>

definition pending :: "globals \<Rightarrow> (32 word \<times> 8 word) list" where
  "pending s =
     (let r = unat (s_KeyQueueReadIndex s); w = unat (s_KeyQueueWriteIndex s) in
      map (\<lambda>k. event_of (s_KeyQueue s ! ((r + k) mod 16))) [0..<(w + 16 - r) mod 16])"

text \<open>
  The events a step from \<open>s\<close> to \<open>t\<close> has put into the queue: the slots of \<open>t\<close> from
  the write cursor of \<open>s\<close> up to the write cursor of \<open>t\<close> (for a step that enqueues
  fewer than 16 events).
\<close>

definition enqueued :: "globals \<Rightarrow> globals \<Rightarrow> (32 word \<times> 8 word) list" where
  "enqueued s t = pending (t\<lparr>s_KeyQueueReadIndex := s_KeyQueueWriteIndex s\<rparr>)"

text \<open>The arrays have their declared sizes and the write cursor is inside the queue.\<close>

definition tables_ok :: "globals \<Rightarrow> bool" where
  "tables_ok s \<longleftrightarrow>
     length (s_KeyQueue s) = 16 \<and> length (keyHoldKeys s) = 7 \<and> length (keyHold s) = 7
     \<and> s_KeyQueueWriteIndex s < KEYQUEUE_SIZE"

text \<open>
  The globals at program start: the static arrays zeroed, both cursors 0, the
  resolution as initialised in \<^verbatim>\<open>doomgeneric.c\<close>, no buffer allocated yet. The
  argument is the contents of the table \<open>keyHoldKeys\<close>.
\<close>

definition start_globals :: "8 word list \<Rightarrow> globals" where
  "start_globals keys =
     \<lparr>DOOMGENERIC_RESX = 160, DOOMGENERIC_RESY = 100, DG_ScreenBuffer = [],
      output_buffer = [], stdout = [], s_KeyQueue = replicate 16 0,
      s_KeyQueueWriteIndex = 0, s_KeyQueueReadIndex = 0, keyHoldKeys = keys,
      keyHold = replicate 7 0\<rparr>"

text \<open>A table of seven distinct key codes, for the concrete runs below.\<close>

definition example_keys :: "8 word list" where
  "example_keys = [0xA3, 0xA2, 13, 0xAC, 0xAE, 0xAD, 0xAF]"

text \<open>Drivers: a producer that enqueues a list of events, a consumer that polls.\<close>

fun enqueue_all :: "(32 word \<times> 8 word) list \<Rightarrow> globals \<Rightarrow> fault + globals" where
  "enqueue_all [] s = Inr s"
| "enqueue_all ((pressed, key) # evs) s =
     (case addKeyToQueue pressed key s of
        Inl e \<Rightarrow> Inl e
      | Inr s1 \<Rightarrow> enqueue_all evs s1)"

text \<open>
  \<open>n\<close> calls of \<^verbatim>\<open>DG_GetKey\<close>; each contributes the event it delivered, or \<open>None\<close>
  when it returned 0.
\<close>

fun dequeue_n :: "nat \<Rightarrow> globals \<Rightarrow> fault + ((32 word \<times> 8 word) option list \<times> globals)" where
  "dequeue_n 0 s = Inr ([], s)"
| "dequeue_n (Suc n) s =
     (case DG_GetKey 0 0 s of
        Inl e \<Rightarrow> Inl e
      | Inr (ret, pressed, doomKey, s1) \<Rightarrow>
          (case dequeue_n n s1 of
             Inl e \<Rightarrow> Inl e
           | Inr (rs, s2) \<Rightarrow> Inr ((if ret = 0 then None else Some (pressed, doomKey)) # rs, s2)))"

definition then_do :: "fault + 'a \<Rightarrow> ('a \<Rightarrow> fault + 'b) \<Rightarrow> fault + 'b" where
  "then_do m f = (case m of Inl e \<Rightarrow> Inl e | Inr x \<Rightarrow> f x)"

datatype queue_call = Enqueue "32 word" "8 word" | Dequeue

fun run_calls :: "queue_call list \<Rightarrow> globals \<Rightarrow> fault + globals" where
  "run_calls [] s = Inr s"
| "run_calls (Enqueue pressed key # cs) s =
     (case addKeyToQueue pressed key s of
        Inl e \<Rightarrow> Inl e
      | Inr s1 \<Rightarrow> run_calls cs s1)"
| "run_calls (Dequeue # cs) s =
     (case DG_GetKey 0 0 s of
        Inl e \<Rightarrow> Inl e
      | Inr (ret, pressed, doomKey, s1) \<Rightarrow> run_calls cs s1)"

text \<open>
  \<open>n\<close> ticks (calls of \<^verbatim>\<open>decrementKeyCtrs\<close>); the result lists, tick by tick, the
  events each tick enqueued.
\<close>

fun ticks :: "nat \<Rightarrow> globals \<Rightarrow> fault + ((32 word \<times> 8 word) list list \<times> globals)" where
  "ticks 0 s = Inr ([], s)"
| "ticks (Suc n) s =
     (case decrementKeyCtrs s of
        Inl e \<Rightarrow> Inl e
      | Inr s1 \<Rightarrow>
          (case ticks n s1 of
             Inl e \<Rightarrow> Inl e
           | Inr (evs, s2) \<Rightarrow> Inr (enqueued s s1 # evs, s2)))"

text \<open>Sixteen press events, as many as the queue has slots.\<close>

definition sixteen_events :: "(32 word \<times> 8 word) list" where
  "sixteen_events =
     [(1, 1), (1, 2), (1, 3), (1, 4), (1, 5), (1, 6), (1, 7), (1, 8),
      (1, 9), (1, 10), (1, 11), (1, 12), (1, 13), (1, 14), (1, 15), (1, 16)]"

text \<open>
  Closed forms for one pass of the loop of \<^verbatim>\<open>decrementKeyCtrs\<close> from index \<open>i\<close> on:
  the hold counters afterwards, and the release events it enqueues, in table order.
\<close>

definition aged :: "nat \<Rightarrow> int list \<Rightarrow> int list" where
  "aged i h = map (\<lambda>j. if i \<le> j \<and> 0 < h ! j then h ! j - 1 else h ! j) [0..<length h]"

definition released :: "nat \<Rightarrow> 8 word list \<Rightarrow> int list \<Rightarrow> (32 word \<times> 8 word) list" where
  "released i keys h = map (\<lambda>j. (0, keys ! j)) (filter (\<lambda>j. h ! j = 1) [i..<KEY_HOLD_KEYS])"

text \<open>The loop equations are unfolded by hand, one iteration at a time.\<close>

declare draw_cols.simps [simp del]
declare draw_rows.simps [simp del]
declare pressKey_loop.simps [simp del]
declare decrementKeyCtrs_loop.simps [simp del]

subsection \<open>The text of a frame\<close>

text \<open>The glyph the renderer picks for a pixel (\<^verbatim>\<open>v_char\<close>).\<close>

definition glyph :: "color_t \<Rightarrow> char" where
  "glyph px = grad ! unat (ramp_index (brightness px))"

text \<open>
  The expected text of a \<open>w\<close> by \<open>h\<close> frame: rows top to bottom, within a row the
  pixels left to right, the glyph of each pixel twice, a newline after each row.
\<close>

definition row_text :: "nat \<Rightarrow> color_t list \<Rightarrow> nat \<Rightarrow> char list" where
  "row_text w scr row =
     concat (map (\<lambda>col. [glyph (scr ! (row * w + col)), glyph (scr ! (row * w + col))]) [0..<w])
     @ [CHR 0x0A]"

definition frame_text :: "nat \<Rightarrow> nat \<Rightarrow> color_t list \<Rightarrow> char list" where
  "frame_text w h scr = concat (map (row_text w scr) [0..<h])"

text \<open>The part of the globals that belongs to the key queue and the hold table.\<close>

definition key_state :: "globals \<Rightarrow> 16 word list \<times> 32 word \<times> 32 word \<times> int list" where
  "key_state s = (s_KeyQueue s, s_KeyQueueWriteIndex s, s_KeyQueueReadIndex s, keyHold s)"

text \<open>
  A small concrete configuration for runs of whole frames: a 2 by 1 screen with one
  black and one white pixel, and an output buffer of eight NUL bytes.
\<close>

definition frame_demo :: globals where
  "frame_demo =
     \<lparr>DOOMGENERIC_RESX = 2, DOOMGENERIC_RESY = 1,
      DG_ScreenBuffer =
        [\<lparr>pixel_b = 0, pixel_g = 0, pixel_r = 0, pixel_a = 0\<rparr>,
         \<lparr>pixel_b = 255, pixel_g = 255, pixel_r = 255, pixel_a = 0\<rparr>],
      output_buffer = replicate 8 (CHR 0x00), stdout = [], s_KeyQueue = replicate 16 0,
      s_KeyQueueWriteIndex = 0, s_KeyQueueReadIndex = 0, keyHoldKeys = example_keys,
      keyHold = replicate 7 0\<rparr>"

text \<open>
  The size \<^verbatim>\<open>DG_Init\<close> gives the output buffer:
  \<^verbatim>\<open>21u * DOOMGENERIC_RESX * DOOMGENERIC_RESY + DOOMGENERIC_RESY + 4u\<close>, computed in
  unsigned 32-bit arithmetic, which wraps modulo \<open>2 ^ 32\<close>.
\<close>

definition output_buffer_size :: "nat \<Rightarrow> nat \<Rightarrow> nat" where
  "output_buffer_size w h = (21 * w * h + h + 4) mod 2 ^ 32"

text \<open>
  The resolution of \<^verbatim>\<open>doomgeneric.c\<close> with every pixel black, and an output buffer of
  the size \<^verbatim>\<open>DG_Init\<close> computes, zero-filled.
\<close>

definition black_screen :: globals where
  "black_screen =
     (start_globals example_keys)
       \<lparr>DG_ScreenBuffer :=
          replicate 16000 \<lparr>pixel_b = 0, pixel_g = 0, pixel_r = 0, pixel_a = 0\<rparr>,
        output_buffer := replicate (output_buffer_size 160 100) (CHR 0x00)\<rparr>"

text \<open>
  The same screen with a block of the same size whose first 32102 bytes are stale, as
  a block from \<^verbatim>\<open>malloc\<close> may be: \<^verbatim>\<open>DG_Init\<close> does not clear the block it allocates.
\<close>

definition stale_screen :: globals where
  "stale_screen =
     black_screen
       \<lparr>output_buffer := replicate 32102 (CHR ''X'') @ replicate 304002 (CHR 0x00)\<rparr>"

section \<open>Brightness and ramp index\<close>

lemma length_grad: "length grad = 71"
  by (simp add: grad_def)

lemma unat_ucast_8_32: "unat (ucast (x :: 8 word) :: 32 word) = unat x"
  using unsigned_less [of x, where ?'a = nat]
  by (simp add: unsigned_ucast_eq take_bit_nat_eq_self_iff)

lemma channel_less: "unat (x :: 8 word) < 256"
  using unsigned_less [of x, where ?'a = nat] by simp

lemma unat_brightness:
  "unat (brightness px) = unat (pixel_r px) + unat (pixel_g px) + unat (pixel_b px)"
  using channel_less [of "pixel_r px"] channel_less [of "pixel_g px"]
    channel_less [of "pixel_b px"]
  by (simp add: brightness_def unat_word_ariths unat_ucast_8_32)

lemma brightness_le: "brightness px \<le> 765"
  using channel_less [of "pixel_r px"] channel_less [of "pixel_g px"]
    channel_less [of "pixel_b px"]
  by (simp add: word_le_nat_alt unat_brightness)

lemma unat_ramp_index: "br \<le> 765 \<Longrightarrow> unat (ramp_index br) = unat br * 70 div 766"
  by (simp add: ramp_index_def GRAD_LEN_def word_le_nat_alt unat_div unat_word_ariths)

lemma unat_spec_ramp_index:
  "br \<le> 765 \<Longrightarrow> unat (spec_ramp_index br) = unat br * 70 div 765"
  by (simp add: spec_ramp_index_def GRAD_LEN_def word_le_nat_alt unat_div unat_word_ariths)

lemma ramp_index_less: "br \<le> 765 \<Longrightarrow> ramp_index br < GRAD_LEN"
  by (simp add: ramp_index_def GRAD_LEN_def word_le_nat_alt word_less_nat_alt unat_div
      unat_word_ariths)

lemma grad_at_ramp_index:
  assumes "br \<le> 765"
  shows "grad_at (ramp_index br) = Inr (grad ! unat (ramp_index br))"
proof -
  have "unat (ramp_index br) < 70"
    using ramp_index_less [OF assms] by (simp add: GRAD_LEN_def word_less_nat_alt)
  then show ?thesis
    by (simp add: grad_at_def length_grad)
qed

text \<open>
  Claim C2. For every brightness \<open>br\<close> in \<open>[0, 765]\<close> the index
  \<^verbatim>\<open>br * GRAD_LEN / 766u\<close> that the renderer computes is at least 0 and below
  \<open>GRAD_LEN = 70\<close>, so the read of \<open>grad\<close> at that index is inside the array.
\<close>

theorem ramp_index_in_bounds:
  "br \<le> 765 \<Longrightarrow>
     0 \<le> ramp_index br \<and> ramp_index br < GRAD_LEN \<and> unat (ramp_index br) < 70
     \<and> grad_at (ramp_index br) = Inr (grad ! unat (ramp_index br))"
  using ramp_index_less [of br] grad_at_ramp_index [of br]
  by (simp add: GRAD_LEN_def word_less_nat_alt)

theorem ramp_index_in_bounds_witness:
  "(400 :: 32 word) \<le> 765 \<and> ramp_index 400 < GRAD_LEN \<and> unat (ramp_index 400) < 70
     \<and> grad_at (ramp_index 400) = Inr (grad ! unat (ramp_index 400))"
  using ramp_index_in_bounds [of 400] by simp

text \<open>
  Claim C3. Brightness 0 is sent to ramp index 0 and brightness 765 (pure white) to
  ramp index \<open>GRAD_LEN - 1 = 69\<close>, the last glyph of the ramp; both reads of \<open>grad\<close>
  are inside the array, and a pixel with all three channels at 255 has brightness 765.
\<close>

theorem ramp_index_endpoints:
  "ramp_index 0 = 0 \<and> ramp_index 765 = GRAD_LEN - 1 \<and> ramp_index 765 = 69
     \<and> grad_at (ramp_index 0) = Inr (CHR '' '') \<and> grad_at (ramp_index 765) = Inr (CHR ''$'')
     \<and> brightness \<lparr>pixel_b = 255, pixel_g = 255, pixel_r = 255, pixel_a = al\<rparr> = 765
     \<and> brightness \<lparr>pixel_b = 0, pixel_g = 0, pixel_r = 0, pixel_a = al\<rparr> = 0"
  by (simp add: ramp_index_def GRAD_LEN_def grad_at_def grad_def brightness_def)

text \<open>Arithmetic behind the comparison of the two index formulas.\<close>

lemma div_766_765_close:
  "(b::nat) \<le> 765 \<Longrightarrow>
     b * 70 div 766 \<le> b * 70 div 765 \<and> b * 70 div 765 \<le> b * 70 div 766 + 1"
  by arith

lemma div_agree_interval:
  fixes b q :: nat
  assumes "766 * q \<le> b * 70" and "b * 70 < 765 * Suc q"
  shows "b * 70 div 766 = q \<and> b * 70 div 765 = q"
proof
  show "b * 70 div 766 = q" using assms by (intro div_nat_eqI) simp_all
  show "b * 70 div 765 = q" using assms by (intro div_nat_eqI) simp_all
qed

lemma div_766_765_agree:
  assumes "(b::nat) < 153"
  shows "b * 70 div 766 = b * 70 div 765"
proof -
  define q where "q = b div 11"
  have lo: "11 * q \<le> b"
    by (simp add: q_def)
  have hi: "b < 11 + 11 * q"
    unfolding q_def by (rule dividend_less_times_div) simp
  have "766 * q \<le> b * 70"
    using lo by linarith
  moreover have "b * 70 < 765 * Suc q"
    using hi assms by (cases "q \<le> 12") simp_all
  ultimately have "b * 70 div 766 = q \<and> b * 70 div 765 = q"
    by (rule div_agree_interval)
  then show ?thesis by (simp only:)
qed

text \<open>
  Claim C4, as stated, fails: at brightness 765 the formula of the specification gives
  70, one past the last glyph, and the formula of the source gives 69.
\<close>

theorem spec_ramp_index_differs:
  "(765 :: 32 word) \<le> 765 \<and> spec_ramp_index 765 = 70 \<and> ramp_index 765 = 69
     \<and> spec_ramp_index 765 \<noteq> ramp_index 765"
  by (simp add: spec_ramp_index_def ramp_index_def GRAD_LEN_def)

text \<open>
  Claim C4, amended. For every brightness \<open>br\<close> in \<open>[0, 765]\<close> the index of the source
  (divisor 766) is the index of the specification's formula (divisor \<open>3 * 255\<close>) or
  one less; the two agree for every \<open>br\<close> below 153 and first differ at 153, where
  the formula of the specification gives 14 and the source 13.
\<close>

theorem spec_ramp_index_close:
  "br \<le> 765 \<Longrightarrow>
     ramp_index br \<le> spec_ramp_index br \<and> spec_ramp_index br \<le> ramp_index br + 1
     \<and> (br < 153 \<longrightarrow> spec_ramp_index br = ramp_index br)
     \<and> spec_ramp_index 153 = 14 \<and> ramp_index 153 = 13
     \<and> spec_ramp_index 153 \<noteq> ramp_index 153"
proof -
  assume le: "br \<le> 765"
  have b: "unat br \<le> 765"
    using le by (simp add: word_le_nat_alt)
  have r: "unat (ramp_index br) = unat br * 70 div 766"
    by (rule unat_ramp_index [OF le])
  have sp: "unat (spec_ramp_index br) = unat br * 70 div 765"
    by (rule unat_spec_ramp_index [OF le])
  have r70: "unat (ramp_index br) < 70"
    using ramp_index_less [OF le] by (simp add: GRAD_LEN_def word_less_nat_alt)
  have succ: "unat (ramp_index br + 1) = unat (ramp_index br) + 1"
    using r70 by (simp add: unat_word_ariths)
  have "ramp_index br \<le> spec_ramp_index br"
    using div_766_765_close [OF b] by (simp only: word_le_nat_alt r sp)
  moreover have "spec_ramp_index br \<le> ramp_index br + 1"
    using div_766_765_close [OF b] by (simp only: word_le_nat_alt succ r sp)
  moreover have "spec_ramp_index br = ramp_index br" if "br < 153"
  proof -
    have "unat br < 153"
      using that by (simp add: word_less_nat_alt)
    then have "unat (spec_ramp_index br) = unat (ramp_index br)"
      using div_766_765_agree [of "unat br"] by (simp only: r sp)
    then show ?thesis
      by (simp only: word_unat_eq_iff)
  qed
  moreover have "spec_ramp_index 153 = 14" and "ramp_index 153 = 13"
    and "spec_ramp_index 153 \<noteq> ramp_index 153"
    by (simp_all add: spec_ramp_index_def ramp_index_def GRAD_LEN_def)
  ultimately show ?thesis by blast
qed

theorem spec_ramp_index_close_witness:
  "(100 :: 32 word) \<le> 765 \<and> ramp_index 100 \<le> spec_ramp_index 100
     \<and> spec_ramp_index 100 \<le> ramp_index 100 + 1
     \<and> ((100 :: 32 word) < 153 \<and> spec_ramp_index 100 = ramp_index 100)
     \<and> spec_ramp_index 153 \<noteq> ramp_index 153"
proof -
  have h: "(100 :: 32 word) \<le> 765" by simp
  have k: "(100 :: 32 word) < 153" by simp
  from spec_ramp_index_close [OF h] h k show ?thesis by blast
qed

section \<open>The key queue as a list of pending events\<close>

lemma mask8: "(0xFF :: 16 word) = mask 8"
  by (simp add: mask_eq_exp_minus_1)

text \<open>Packing in \<^verbatim>\<open>addKeyToQueue\<close> and unpacking in \<^verbatim>\<open>DG_GetKey\<close> are inverse.\<close>

lemma event_of_keyData:
  assumes "p < 256"
  shows "event_of (ucast (push_bit 8 p OR ucast k :: 32 word)) = (p, k)"
proof -
  have "p < 2 ^ 8"
    using assms by simp
  then have "p AND mask 8 = p"
    by (rule less_mask_eq)
  then have "take_bit 8 p = p"
    by (simp add: take_bit_eq_mask)
  then obtain p' :: "32 word" where p: "p = take_bit 8 p'"
    by metis
  have hi: "ucast (drop_bit 8 (ucast (push_bit 8 (take_bit 8 p') OR ucast k :: 32 word)
              :: 16 word)) = take_bit 8 p'"
    by (rule bit_word_eqI) (auto simp add: bit_simps dest: bit_imp_le_length)
  have lo: "ucast ((ucast (push_bit 8 (take_bit 8 p') OR ucast k :: 32 word) :: 16 word)
              AND mask 8) = k"
    by (rule bit_word_eqI) (auto simp add: bit_simps dest: bit_imp_le_length)
  show ?thesis
    unfolding event_of_def mask8 p using hi lo by simp
qed

lemma unat_next:
  "w < KEYQUEUE_SIZE \<Longrightarrow> unat ((w + 1) mod KEYQUEUE_SIZE) = (unat w + 1) mod 16"
  by (simp add: KEYQUEUE_SIZE_def word_less_nat_alt unat_mod unat_word_ariths)

lemma unat_less_16: "w < KEYQUEUE_SIZE \<longleftrightarrow> unat w < 16"
  by (simp add: KEYQUEUE_SIZE_def word_less_nat_alt)

lemma next_less: "(w + 1) mod KEYQUEUE_SIZE < KEYQUEUE_SIZE"
  by (simp add: KEYQUEUE_SIZE_def word_mod_less_divisor)

lemma addKeyToQueue_Inr:
  "s_KeyQueueWriteIndex s < KEYQUEUE_SIZE \<Longrightarrow>
   addKeyToQueue p k s =
     Inr (s\<lparr>s_KeyQueue := (s_KeyQueue s)[unat (s_KeyQueueWriteIndex s) :=
                ucast (push_bit 8 p OR ucast k :: 32 word)],
            s_KeyQueueWriteIndex := (s_KeyQueueWriteIndex s + 1) mod KEYQUEUE_SIZE\<rparr>)"
  by (simp add: addKeyToQueue_def)

lemma mod16: "x < 32 \<Longrightarrow> x mod 16 = (if x < 16 then x else x - (16::nat))"
  by (simp add: le_mod_geq)

lemma ring_arith:
  fixes r w :: nat
  assumes "r < 16" "w < 16"
  shows "(r + (w + 16 - r) mod 16) mod 16 = w"
    and "(w + 16 - r) mod 16 < 15 \<Longrightarrow>
           ((w + 1) mod 16 + 16 - r) mod 16 = (w + 16 - r) mod 16 + 1"
    and "k < (w + 16 - r) mod 16 \<Longrightarrow> (r + k) mod 16 \<noteq> w"
    and "(w + 16 - r) mod 16 = 0 \<longleftrightarrow> r = w"
    and "r \<noteq> w \<Longrightarrow> (w + 16 - (r + 1) mod 16) mod 16 = (w + 16 - r) mod 16 - 1"
  using assms by (auto simp add: mod16 split: if_splits)

lemma ring_shift: "((r + 1) mod 16 + k) mod 16 = (r + Suc k) mod (16::nat)"
  by (simp add: mod_add_left_eq)

lemma pending_eq:
  "pending s =
     map (\<lambda>k. event_of (s_KeyQueue s ! ((unat (s_KeyQueueReadIndex s) + k) mod 16)))
       [0..<(unat (s_KeyQueueWriteIndex s) + 16 - unat (s_KeyQueueReadIndex s)) mod 16]"
  by (simp add: pending_def Let_def)

lemma ring_shift_Suc: "(Suc r mod 16 + k) mod 16 = Suc (r + k) mod (16::nat)"
  using ring_shift [of r k] by simp

lemma pending_add:
  assumes len: "length (s_KeyQueue s) = 16"
    and w: "s_KeyQueueWriteIndex s < KEYQUEUE_SIZE"
    and r: "s_KeyQueueReadIndex s < KEYQUEUE_SIZE"
    and room: "length (pending s) < 15"
    and p: "p < 256"
  shows "pending (s\<lparr>s_KeyQueue := (s_KeyQueue s)[unat (s_KeyQueueWriteIndex s) :=
                ucast (push_bit 8 p OR ucast k :: 32 word)],
            s_KeyQueueWriteIndex := (s_KeyQueueWriteIndex s + 1) mod KEYQUEUE_SIZE\<rparr>)
         = pending s @ [(p, k)]"
proof -
  define rn where "rn = unat (s_KeyQueueReadIndex s)"
  define wn where "wn = unat (s_KeyQueueWriteIndex s)"
  define n where "n = (wn + 16 - rn) mod 16"
  define q where "q = s_KeyQueue s"
  define kd :: "16 word" where "kd = ucast (push_bit 8 p OR ucast k :: 32 word)"
  have rn: "rn < 16" and wn: "wn < 16"
    using r w by (simp_all add: rn_def wn_def unat_less_16)
  have n15: "n < 15"
    using room by (simp add: pending_eq n_def rn_def wn_def)
  have n': "((wn + 1) mod 16 + 16 - rn) mod 16 = Suc n"
    using ring_arith(2) [OF rn wn] n15 by (simp add: n_def)
  have last: "(rn + n) mod 16 = wn"
    using ring_arith(1) [OF rn wn] by (simp add: n_def)
  have old: "q[wn := kd] ! ((rn + j) mod 16) = q ! ((rn + j) mod 16)" if "j < n" for j
    using ring_arith(3) [OF rn wn, of j] that by (simp add: n_def)
  have new: "q[wn := kd] ! ((rn + n) mod 16) = kd"
    using wn len by (simp add: last q_def)
  have "pending (s\<lparr>s_KeyQueue := q[wn := kd],
            s_KeyQueueWriteIndex := (s_KeyQueueWriteIndex s + 1) mod KEYQUEUE_SIZE\<rparr>)
        = map (\<lambda>j. event_of (q[wn := kd] ! ((rn + j) mod 16))) [0..<Suc n]"
    using n' by (simp add: pending_eq unat_next [OF w] rn_def [symmetric] wn_def [symmetric])
  also have "\<dots> = map (\<lambda>j. event_of (q ! ((rn + j) mod 16))) [0..<n] @ [event_of kd]"
    using old new by simp
  also have "map (\<lambda>j. event_of (q ! ((rn + j) mod 16))) [0..<n] = pending s"
    by (simp add: pending_eq n_def rn_def wn_def q_def)
  also have "event_of kd = (p, k)"
    unfolding kd_def by (rule event_of_keyData [OF p])
  finally show ?thesis
    by (simp add: q_def wn_def kd_def)
qed

lemma pending_Nil_iff:
  assumes "s_KeyQueueWriteIndex s < KEYQUEUE_SIZE" "s_KeyQueueReadIndex s < KEYQUEUE_SIZE"
  shows "pending s = [] \<longleftrightarrow> s_KeyQueueReadIndex s = s_KeyQueueWriteIndex s"
proof -
  have "unat (s_KeyQueueReadIndex s) < 16" "unat (s_KeyQueueWriteIndex s) < 16"
    using assms by (simp_all add: unat_less_16)
  from ring_arith(4) [OF this] show ?thesis
    by (simp add: pending_eq word_unat_eq_iff)
qed

lemma pending_get:
  assumes w: "s_KeyQueueWriteIndex s < KEYQUEUE_SIZE"
    and r: "s_KeyQueueReadIndex s < KEYQUEUE_SIZE"
    and ne: "pending s = x # xs"
  shows "DG_GetKey a b s =
           Inr (1, fst x, snd x,
                s\<lparr>s_KeyQueueReadIndex := (s_KeyQueueReadIndex s + 1) mod KEYQUEUE_SIZE\<rparr>)"
    and "pending (s\<lparr>s_KeyQueueReadIndex := (s_KeyQueueReadIndex s + 1) mod KEYQUEUE_SIZE\<rparr>) = xs"
proof -
  define rn where "rn = unat (s_KeyQueueReadIndex s)"
  define wn where "wn = unat (s_KeyQueueWriteIndex s)"
  define n where "n = (wn + 16 - rn) mod 16"
  define q where "q = s_KeyQueue s"
  have rn: "rn < 16" and wn: "wn < 16"
    using r w by (simp_all add: rn_def wn_def unat_less_16)
  have pend: "pending s = map (\<lambda>j. event_of (q ! ((rn + j) mod 16))) [0..<n]"
    by (simp add: pending_eq n_def rn_def wn_def q_def)
  have neq: "s_KeyQueueReadIndex s \<noteq> s_KeyQueueWriteIndex s"
    using pending_Nil_iff [OF w r] ne by simp
  then have rw: "rn \<noteq> wn"
    by (simp add: rn_def wn_def word_unat_eq_iff)
  have npos: "0 < n"
    using ne pend by (cases n) simp_all
  have split: "[0..<n] = 0 # map Suc [0..<n - 1]"
    using npos by (metis One_nat_def Suc_pred map_Suc_upt upt_conv_Cons)
  have x: "x = event_of (q ! rn)" and xs: "xs = map (\<lambda>j. event_of (q ! ((rn + Suc j) mod 16))) [0..<n - 1]"
    using ne rn unfolding pend split by (simp_all add: comp_def)
  show "DG_GetKey a b s =
           Inr (1, fst x, snd x,
                s\<lparr>s_KeyQueueReadIndex := (s_KeyQueueReadIndex s + 1) mod KEYQUEUE_SIZE\<rparr>)"
    using neq r by (simp add: DG_GetKey_def Let_def x event_of_def q_def rn_def)
  have n': "(wn + 16 - (rn + 1) mod 16) mod 16 = n - 1"
    using ring_arith(5) [OF rn wn rw] by (simp add: n_def)
  show "pending (s\<lparr>s_KeyQueueReadIndex := (s_KeyQueueReadIndex s + 1) mod KEYQUEUE_SIZE\<rparr>) = xs"
    using n' by (simp add: pending_eq unat_next [OF r] rn_def [symmetric] wn_def [symmetric]
        q_def [symmetric] xs ring_shift_Suc)
qed

lemma enqueue_all_pending:
  assumes "length (s_KeyQueue s) = 16"
    and "s_KeyQueueWriteIndex s < KEYQUEUE_SIZE"
    and "s_KeyQueueReadIndex s < KEYQUEUE_SIZE"
    and "length (pending s) + length evs < 16"
    and "\<forall>e \<in> set evs. fst e < 256"
  shows "\<exists>q w. enqueue_all evs s = Inr (s\<lparr>s_KeyQueue := q, s_KeyQueueWriteIndex := w\<rparr>)
           \<and> length q = 16 \<and> w < KEYQUEUE_SIZE
           \<and> pending (s\<lparr>s_KeyQueue := q, s_KeyQueueWriteIndex := w\<rparr>) = pending s @ evs"
  using assms
proof (induction evs arbitrary: s)
  case Nil
  have "s = s\<lparr>s_KeyQueue := s_KeyQueue s, s_KeyQueueWriteIndex := s_KeyQueueWriteIndex s\<rparr>"
    by simp
  with Nil show ?case
    by (metis append_Nil2 enqueue_all.simps(1))
next
  case (Cons e evs)
  obtain p k where e: "e = (p, k)"
    by (cases e)
  define s1 where "s1 = s\<lparr>s_KeyQueue := (s_KeyQueue s)[unat (s_KeyQueueWriteIndex s) :=
                ucast (push_bit 8 p OR ucast k :: 32 word)],
            s_KeyQueueWriteIndex := (s_KeyQueueWriteIndex s + 1) mod KEYQUEUE_SIZE\<rparr>"
  have add: "addKeyToQueue p k s = Inr s1"
    unfolding s1_def by (rule addKeyToQueue_Inr [OF Cons.prems(2)])
  have p: "p < 256"
    using Cons.prems(5) e by simp
  have pend1: "pending s1 = pending s @ [(p, k)]"
    unfolding s1_def
    using Cons.prems by (intro pending_add) (simp_all add: p)
  have "\<exists>q w. enqueue_all evs s1 = Inr (s1\<lparr>s_KeyQueue := q, s_KeyQueueWriteIndex := w\<rparr>)
           \<and> length q = 16 \<and> w < KEYQUEUE_SIZE
           \<and> pending (s1\<lparr>s_KeyQueue := q, s_KeyQueueWriteIndex := w\<rparr>) = pending s1 @ evs"
  proof (rule Cons.IH)
    show "length (s_KeyQueue s1) = 16"
      using Cons.prems(1) by (simp add: s1_def)
    show "s_KeyQueueWriteIndex s1 < KEYQUEUE_SIZE"
      by (simp add: s1_def next_less)
    show "s_KeyQueueReadIndex s1 < KEYQUEUE_SIZE"
      using Cons.prems(3) by (simp add: s1_def)
    show "length (pending s1) + length evs < 16"
      using Cons.prems(4) by (simp add: pend1)
    show "\<forall>e\<in>set evs. fst e < 256"
      using Cons.prems(5) by simp
  qed
  then obtain q w where run: "enqueue_all evs s1 = Inr (s1\<lparr>s_KeyQueue := q, s_KeyQueueWriteIndex := w\<rparr>)"
    and q: "length q = 16" and w: "w < KEYQUEUE_SIZE"
    and pend: "pending (s1\<lparr>s_KeyQueue := q, s_KeyQueueWriteIndex := w\<rparr>) = pending s1 @ evs"
    by blast
  have same: "s1\<lparr>s_KeyQueue := q, s_KeyQueueWriteIndex := w\<rparr> = s\<lparr>s_KeyQueue := q, s_KeyQueueWriteIndex := w\<rparr>"
    by (simp add: s1_def)
  have "enqueue_all (e # evs) s = Inr (s\<lparr>s_KeyQueue := q, s_KeyQueueWriteIndex := w\<rparr>)"
    using add run by (simp add: e same)
  moreover have "pending (s\<lparr>s_KeyQueue := q, s_KeyQueueWriteIndex := w\<rparr>) = pending s @ e # evs"
    using pend by (simp add: same pend1 e)
  ultimately show ?case
    using q w by blast
qed

lemma dequeue_n_pending:
  assumes "s_KeyQueueWriteIndex s < KEYQUEUE_SIZE"
    and "s_KeyQueueReadIndex s < KEYQUEUE_SIZE"
    and "n \<le> length (pending s)"
  shows "\<exists>r. dequeue_n n s = Inr (map Some (take n (pending s)), s\<lparr>s_KeyQueueReadIndex := r\<rparr>)
           \<and> r < KEYQUEUE_SIZE
           \<and> pending (s\<lparr>s_KeyQueueReadIndex := r\<rparr>) = drop n (pending s)"
  using assms
proof (induction n arbitrary: s)
  case 0
  have "s = s\<lparr>s_KeyQueueReadIndex := s_KeyQueueReadIndex s\<rparr>"
    by simp
  with 0 show ?case
    by (metis dequeue_n.simps(1) drop_0 list.simps(8) take_0)
next
  case (Suc n)
  from Suc.prems(3) obtain x xs where xs: "pending s = x # xs"
    by (cases "pending s") simp_all
  define s1 where "s1 = s\<lparr>s_KeyQueueReadIndex := (s_KeyQueueReadIndex s + 1) mod KEYQUEUE_SIZE\<rparr>"
  have get: "DG_GetKey 0 0 s = Inr (1, fst x, snd x, s1)" and pend1: "pending s1 = xs"
    unfolding s1_def using pending_get [OF Suc.prems(1,2) xs] by simp_all
  have "\<exists>r. dequeue_n n s1 = Inr (map Some (take n (pending s1)), s1\<lparr>s_KeyQueueReadIndex := r\<rparr>)
           \<and> r < KEYQUEUE_SIZE
           \<and> pending (s1\<lparr>s_KeyQueueReadIndex := r\<rparr>) = drop n (pending s1)"
  proof (rule Suc.IH)
    show "s_KeyQueueWriteIndex s1 < KEYQUEUE_SIZE"
      using Suc.prems(1) by (simp add: s1_def)
    show "s_KeyQueueReadIndex s1 < KEYQUEUE_SIZE"
      by (simp add: s1_def next_less)
    show "n \<le> length (pending s1)"
      using Suc.prems(3) by (simp add: pend1 xs)
  qed
  then obtain r where run: "dequeue_n n s1 = Inr (map Some (take n xs), s1\<lparr>s_KeyQueueReadIndex := r\<rparr>)"
    and r: "r < KEYQUEUE_SIZE"
    and pend: "pending (s1\<lparr>s_KeyQueueReadIndex := r\<rparr>) = drop n xs"
    unfolding pend1 by blast
  have same: "s1\<lparr>s_KeyQueueReadIndex := r\<rparr> = s\<lparr>s_KeyQueueReadIndex := r\<rparr>"
    by (simp add: s1_def)
  have "dequeue_n (Suc n) s = Inr (map Some (take (Suc n) (pending s)), s\<lparr>s_KeyQueueReadIndex := r\<rparr>)"
    using get run by (simp add: xs same)
  moreover have "pending (s\<lparr>s_KeyQueueReadIndex := r\<rparr>) = drop (Suc n) (pending s)"
    using pend by (simp add: same xs)
  ultimately show ?case
    using r by blast
qed

text \<open>
  Claim C1, as stated, fails at \<open>n = 16\<close>: after sixteen events are enqueued into the
  empty queue the write cursor is back at the read cursor, and each of the sixteen
  calls of \<^verbatim>\<open>DG_GetKey\<close> returns 0 instead of an event.
\<close>

theorem full_queue_reads_empty:
  "length sixteen_events = 16
   \<and> map_sum id fst
        (then_do (enqueue_all sixteen_events (start_globals example_keys)) (dequeue_n 16))
       = Inr (replicate 16 None)
   \<and> replicate 16 None \<noteq> map Some sixteen_events"
  by code_simp

text \<open>
  Claim C1, amended to \<open>n < 16\<close>. For every list of fewer than 16 key events (the
  pressed flag within the 8 bits the packing keeps, so in particular 0 or 1), from any
  empty queue: enqueueing them and then calling \<^verbatim>\<open>DG_GetKey\<close> as many times
  delivers the same events in the same order, and one more call returns 0 and leaves
  the caller's two locations and the globals as they are.
\<close>

theorem queue_round_trip:
  assumes "length (s_KeyQueue s) = 16"
    and "s_KeyQueueWriteIndex s < KEYQUEUE_SIZE"
    and "s_KeyQueueReadIndex s = s_KeyQueueWriteIndex s"
    and "length evs < 16"
    and "\<forall>e \<in> set evs. fst e < 256"
  shows "\<exists>s1 s2. enqueue_all evs s = Inr s1
           \<and> dequeue_n (length evs) s1 = Inr (map Some evs, s2)
           \<and> DG_GetKey pressed doomKey s2 = Inr (0, pressed, doomKey, s2)"
proof -
  have r: "s_KeyQueueReadIndex s < KEYQUEUE_SIZE"
    using assms(2,3) by simp
  have empty: "pending s = []"
    using pending_Nil_iff [OF assms(2) r] assms(3) by simp
  obtain q w where en: "enqueue_all evs s = Inr (s\<lparr>s_KeyQueue := q, s_KeyQueueWriteIndex := w\<rparr>)"
    and q: "length q = 16" and w: "w < KEYQUEUE_SIZE"
    and pend: "pending (s\<lparr>s_KeyQueue := q, s_KeyQueueWriteIndex := w\<rparr>) = pending s @ evs"
    using enqueue_all_pending [OF assms(1,2) r _ assms(5), of ] assms(4) empty by auto
  define s1 where "s1 = s\<lparr>s_KeyQueue := q, s_KeyQueueWriteIndex := w\<rparr>"
  have pend1: "pending s1 = evs"
    using pend empty by (simp add: s1_def)
  have w1: "s_KeyQueueWriteIndex s1 < KEYQUEUE_SIZE" and r1: "s_KeyQueueReadIndex s1 < KEYQUEUE_SIZE"
    using w r by (simp_all add: s1_def)
  obtain r' where de: "dequeue_n (length evs) s1 = Inr (map Some (take (length evs) (pending s1)), s1\<lparr>s_KeyQueueReadIndex := r'\<rparr>)"
    and r': "r' < KEYQUEUE_SIZE"
    and pend2: "pending (s1\<lparr>s_KeyQueueReadIndex := r'\<rparr>) = drop (length evs) (pending s1)"
    using dequeue_n_pending [OF w1 r1, of "length evs"] by (auto simp add: pend1)
  define s2 where "s2 = s1\<lparr>s_KeyQueueReadIndex := r'\<rparr>"
  have "pending s2 = []"
    using pend2 by (simp add: s2_def pend1)
  moreover have "s_KeyQueueWriteIndex s2 < KEYQUEUE_SIZE" "s_KeyQueueReadIndex s2 < KEYQUEUE_SIZE"
    using w1 r' by (simp_all add: s2_def)
  ultimately have "s_KeyQueueReadIndex s2 = s_KeyQueueWriteIndex s2"
    using pending_Nil_iff by blast
  then have "DG_GetKey pressed doomKey s2 = Inr (0, pressed, doomKey, s2)"
    by (simp add: DG_GetKey_def)
  moreover have "dequeue_n (length evs) s1 = Inr (map Some evs, s2)"
    using de by (simp add: pend1 s2_def)
  moreover have "enqueue_all evs s = Inr s1"
    using en by (simp add: s1_def)
  ultimately show ?thesis
    by blast
qed

theorem queue_round_trip_witness:
  "\<exists>s1 s2. enqueue_all [(1, 0x20), (0, 0x20), (1, 0xAD)] (start_globals example_keys) = Inr s1
      \<and> dequeue_n (length [(1 :: 32 word, 0x20 :: 8 word), (0, 0x20), (1, 0xAD)]) s1
          = Inr (map Some [(1, 0x20), (0, 0x20), (1, 0xAD)], s2)
      \<and> DG_GetKey 5 7 s2 = Inr (0, 5, 7, s2)"
  by (rule queue_round_trip)
    (simp_all add: start_globals_def KEYQUEUE_SIZE_def)

lemma DG_GetKey_cases:
  assumes "s_KeyQueueReadIndex s < KEYQUEUE_SIZE"
  shows "\<exists>ret p k r. DG_GetKey a b s = Inr (ret, p, k, s\<lparr>s_KeyQueueReadIndex := r\<rparr>)
           \<and> r < KEYQUEUE_SIZE
           \<and> (ret = 0 \<longleftrightarrow> s_KeyQueueReadIndex s = s_KeyQueueWriteIndex s)"
proof (cases "s_KeyQueueReadIndex s = s_KeyQueueWriteIndex s")
  case True
  have "s = s\<lparr>s_KeyQueueReadIndex := s_KeyQueueReadIndex s\<rparr>"
    by simp
  moreover have "DG_GetKey a b s = Inr (0, a, b, s)"
    using True by (simp add: DG_GetKey_def)
  ultimately show ?thesis
    using True assms by metis
next
  case False
  then have "DG_GetKey a b s =
      Inr (1, ucast (drop_bit 8 (s_KeyQueue s ! unat (s_KeyQueueReadIndex s))),
           ucast (s_KeyQueue s ! unat (s_KeyQueueReadIndex s) AND 0xFF),
           s\<lparr>s_KeyQueueReadIndex := (s_KeyQueueReadIndex s + 1) mod KEYQUEUE_SIZE\<rparr>)"
    using assms by (simp add: DG_GetKey_def Let_def)
  with False show ?thesis
    using next_less by fastforce
qed

lemma run_calls_cursors:
  assumes "s_KeyQueueWriteIndex s < KEYQUEUE_SIZE" and "s_KeyQueueReadIndex s < KEYQUEUE_SIZE"
  shows "\<exists>t. run_calls cs s = Inr t
           \<and> s_KeyQueueWriteIndex t < KEYQUEUE_SIZE \<and> s_KeyQueueReadIndex t < KEYQUEUE_SIZE"
  using assms
proof (induction cs s rule: run_calls.induct)
  case (1 s)
  then show ?case by simp
next
  case (2 pressed key cs s)
  define s1 where "s1 = s\<lparr>s_KeyQueue := (s_KeyQueue s)[unat (s_KeyQueueWriteIndex s) :=
                ucast (push_bit 8 pressed OR ucast key :: 32 word)],
            s_KeyQueueWriteIndex := (s_KeyQueueWriteIndex s + 1) mod KEYQUEUE_SIZE\<rparr>"
  have add: "addKeyToQueue pressed key s = Inr s1"
    unfolding s1_def by (rule addKeyToQueue_Inr [OF "2.prems"(1)])
  have "\<exists>t. run_calls cs s1 = Inr t
           \<and> s_KeyQueueWriteIndex t < KEYQUEUE_SIZE \<and> s_KeyQueueReadIndex t < KEYQUEUE_SIZE"
    using "2.prems" by (intro "2.IH" [OF add]) (simp_all add: s1_def next_less)
  then show ?case
    using add by simp
next
  case (3 cs s)
  obtain ret p k r where get: "DG_GetKey 0 0 s = Inr (ret, p, k, s\<lparr>s_KeyQueueReadIndex := r\<rparr>)"
    and r: "r < KEYQUEUE_SIZE"
    using DG_GetKey_cases [OF "3.prems"(2)] by blast
  have "\<exists>t. run_calls cs (s\<lparr>s_KeyQueueReadIndex := r\<rparr>) = Inr t
           \<and> s_KeyQueueWriteIndex t < KEYQUEUE_SIZE \<and> s_KeyQueueReadIndex t < KEYQUEUE_SIZE"
    using "3.prems" r by (intro "3.IH" [OF get refl refl refl]) simp_all
  then show ?case
    using get by simp
qed

text \<open>
  Claim C9. After any sequence of \<^verbatim>\<open>addKeyToQueue\<close> and \<^verbatim>\<open>DG_GetKey\<close> calls from
  the globals at program start, every call has stayed inside the queue, both cursors
  are in \<open>[0, KEYQUEUE_SIZE)\<close>, and a call of \<^verbatim>\<open>DG_GetKey\<close> returns 0 exactly
  when the read cursor equals the write cursor.
\<close>

theorem cursor_invariant:
  "\<exists>t ret p k u. run_calls cs (start_globals keys) = Inr t
     \<and> 0 \<le> s_KeyQueueWriteIndex t \<and> s_KeyQueueWriteIndex t < KEYQUEUE_SIZE
     \<and> 0 \<le> s_KeyQueueReadIndex t \<and> s_KeyQueueReadIndex t < KEYQUEUE_SIZE
     \<and> DG_GetKey pressed doomKey t = Inr (ret, p, k, u)
     \<and> (ret = 0 \<longleftrightarrow> s_KeyQueueReadIndex t = s_KeyQueueWriteIndex t)"
proof -
  have "s_KeyQueueWriteIndex (start_globals keys) < KEYQUEUE_SIZE"
    and "s_KeyQueueReadIndex (start_globals keys) < KEYQUEUE_SIZE"
    by (simp_all add: start_globals_def KEYQUEUE_SIZE_def)
  then obtain t where t: "run_calls cs (start_globals keys) = Inr t"
    and w: "s_KeyQueueWriteIndex t < KEYQUEUE_SIZE" and r: "s_KeyQueueReadIndex t < KEYQUEUE_SIZE"
    using run_calls_cursors by blast
  from DG_GetKey_cases [OF r, of pressed doomKey] t w r show ?thesis
    by (simp only: word_zero_le) blast
qed

text \<open>
  Claim C10. When the read cursor equals the write cursor, \<^verbatim>\<open>DG_GetKey\<close> returns 0
  and changes nothing: the globals (both cursors and every queue slot among them) and
  the contents of the caller's two locations are as before the call.
\<close>

theorem dequeue_empty_unchanged:
  "s_KeyQueueReadIndex s = s_KeyQueueWriteIndex s \<Longrightarrow>
     DG_GetKey pressed doomKey s = Inr (0, pressed, doomKey, s)"
  by (simp add: DG_GetKey_def)

theorem dequeue_empty_unchanged_witness:
  "s_KeyQueueReadIndex (start_globals example_keys\<lparr>s_KeyQueueWriteIndex := 5, s_KeyQueueReadIndex := 5\<rparr>)
     = s_KeyQueueWriteIndex (start_globals example_keys\<lparr>s_KeyQueueWriteIndex := 5, s_KeyQueueReadIndex := 5\<rparr>)
   \<and> DG_GetKey 1 0x20 (start_globals example_keys\<lparr>s_KeyQueueWriteIndex := 5, s_KeyQueueReadIndex := 5\<rparr>)
     = Inr (0, 1, 0x20, start_globals example_keys\<lparr>s_KeyQueueWriteIndex := 5, s_KeyQueueReadIndex := 5\<rparr>)"
  using dequeue_empty_unchanged
    [of "start_globals example_keys\<lparr>s_KeyQueueWriteIndex := 5, s_KeyQueueReadIndex := 5\<rparr>" 1 "0x20"]
  by simp

section \<open>The hold counters\<close>

lemma aged_beyond: "length h \<le> i \<Longrightarrow> aged i h = h"
  by (rule nth_equalityI) (simp_all add: aged_def)

lemma length_aged: "length (aged i h) = length h"
  by (simp add: aged_def)

lemma aged_skip: "i < length h \<Longrightarrow> \<not> 0 < h ! i \<Longrightarrow> aged (Suc i) h = aged i h"
  by (rule nth_equalityI) (auto simp add: aged_def Suc_le_eq le_less)

lemma aged_step: "i < length h \<Longrightarrow> 0 < h ! i \<Longrightarrow> aged (Suc i) (h[i := h ! i - 1]) = aged i h"
  by (rule nth_equalityI) (auto simp add: aged_def nth_list_update Suc_le_eq)

lemma released_beyond: "KEY_HOLD_KEYS \<le> i \<Longrightarrow> released i keys h = []"
  by (simp add: released_def)

lemma released_skip:
  "i < KEY_HOLD_KEYS \<Longrightarrow> h ! i \<noteq> 1 \<Longrightarrow> released i keys h = released (Suc i) keys h"
  by (simp add: released_def upt_conv_Cons)

lemma released_take:
  "i < KEY_HOLD_KEYS \<Longrightarrow> h ! i = 1 \<Longrightarrow>
     released i keys h = (0, keys ! i) # released (Suc i) keys h"
  by (simp add: released_def upt_conv_Cons)

lemma released_update: "released (Suc i) keys (h[i := v]) = released (Suc i) keys h"
proof -
  have "filter (\<lambda>j. h[i := v] ! j = 1) [Suc i..<KEY_HOLD_KEYS] = filter (\<lambda>j. h ! j = 1) [Suc i..<KEY_HOLD_KEYS]"
    by (rule filter_cong) auto
  then show ?thesis
    by (simp add: released_def)
qed

lemma addKeyToQueue_keyHold:
  "addKeyToQueue p k (s\<lparr>keyHold := h\<rparr>) = map_sum id (\<lambda>t. t\<lparr>keyHold := h\<rparr>) (addKeyToQueue p k s)"
  by (simp add: addKeyToQueue_def Let_def)

lemma enqueue_all_keyHold:
  "enqueue_all evs (s\<lparr>keyHold := h\<rparr>) = map_sum id (\<lambda>t. t\<lparr>keyHold := h\<rparr>) (enqueue_all evs s)"
proof (induction evs arbitrary: s)
  case Nil
  then show ?case by simp
next
  case (Cons e evs)
  obtain p k where e: "e = (p, k)" by (cases e)
  show ?case
    by (cases "addKeyToQueue p k s") (simp_all add: e addKeyToQueue_keyHold Cons.IH)
qed

lemma addKeyToQueue_tables:
  assumes "tables_ok s"
  shows "\<exists>t. addKeyToQueue p k s = Inr t \<and> tables_ok t \<and> keyHold t = keyHold s
           \<and> keyHoldKeys t = keyHoldKeys s"
  using assms by (simp add: addKeyToQueue_def Let_def tables_ok_def next_less)

lemma tick_loop_closed:
  assumes "tables_ok s"
  shows "decrementKeyCtrs_loop i s =
           enqueue_all (released i (keyHoldKeys s) (keyHold s)) (s\<lparr>keyHold := aged i (keyHold s)\<rparr>)"
  using assms
proof (induction i s rule: decrementKeyCtrs_loop.induct)
  case (1 i s)
  have len: "length (keyHold s) = 7"
    using "1.prems" by (simp add: tables_ok_def)
  show ?case
  proof (cases "i < KEY_HOLD_KEYS")
    case False
    then have "7 \<le> i" by (simp add: KEY_HOLD_KEYS_def)
    then show ?thesis
      using False by (subst decrementKeyCtrs_loop.simps) (simp add: released_beyond aged_beyond len)
  next
    case True
    then have i: "i < length (keyHold s)"
      by (simp add: len KEY_HOLD_KEYS_def)
    show ?thesis
    proof (cases "0 < keyHold s ! i")
      case False
      have "decrementKeyCtrs_loop i s = decrementKeyCtrs_loop (i + 1) s"
        using True False by (subst decrementKeyCtrs_loop.simps) simp
      also have "\<dots> = enqueue_all (released (i + 1) (keyHoldKeys s) (keyHold s))
            (s\<lparr>keyHold := aged (i + 1) (keyHold s)\<rparr>)"
        using True False "1.prems" by (intro "1.IH"(3)) simp_all
      finally show ?thesis
        using True False i by (simp add: released_skip aged_skip)
    next
      case pos: True
      define s1 where "s1 = s\<lparr>keyHold := (keyHold s)[i := keyHold s ! i - 1]\<rparr>"
      have ok1: "tables_ok s1"
        using "1.prems" by (simp add: s1_def tables_ok_def)
      have h1: "keyHold s1 ! i = keyHold s ! i - 1"
        using i by (simp add: s1_def)
      show ?thesis
      proof (cases "keyHold s ! i = 1")
        case False
        have "decrementKeyCtrs_loop i s = decrementKeyCtrs_loop (i + 1) s1"
          using True pos False h1 by (subst decrementKeyCtrs_loop.simps) (simp add: s1_def Let_def)
        also have "\<dots> = enqueue_all (released (i + 1) (keyHoldKeys s1) (keyHold s1))
            (s1\<lparr>keyHold := aged (i + 1) (keyHold s1)\<rparr>)"
          using True pos False h1 ok1 by (intro "1.IH"(2) [of s1]) (simp_all add: s1_def)
        finally show ?thesis
          using True pos False i
          by (simp add: s1_def released_update released_skip aged_step)
      next
        case one: True
        obtain s2 where add: "addKeyToQueue 0 (keyHoldKeys s1 ! i) s1 = Inr s2"
          and ok2: "tables_ok s2" and h2: "keyHold s2 = keyHold s1" and k2: "keyHoldKeys s2 = keyHoldKeys s1"
          using addKeyToQueue_tables [OF ok1] by blast
        have "decrementKeyCtrs_loop i s = decrementKeyCtrs_loop (i + 1) s2"
          using True pos one h1 add by (subst decrementKeyCtrs_loop.simps) (simp add: s1_def Let_def)
        also have "\<dots> = enqueue_all (released (i + 1) (keyHoldKeys s2) (keyHold s2))
            (s2\<lparr>keyHold := aged (i + 1) (keyHold s2)\<rparr>)"
          using True pos one h1 ok2 add by (intro "1.IH"(1) [of s1 s2]) (simp_all add: s1_def)
        also have "\<dots> = enqueue_all (released (Suc i) (keyHoldKeys s) (keyHold s))
            (s2\<lparr>keyHold := aged i (keyHold s)\<rparr>)"
          using pos i by (simp add: h2 k2 s1_def released_update aged_step)
        finally have lhs: "decrementKeyCtrs_loop i s =
            enqueue_all (released (Suc i) (keyHoldKeys s) (keyHold s)) (s2\<lparr>keyHold := aged i (keyHold s)\<rparr>)" .
        have "addKeyToQueue 0 (keyHoldKeys s ! i) (s\<lparr>keyHold := aged i (keyHold s)\<rparr>)
                = Inr (s2\<lparr>keyHold := aged i (keyHold s)\<rparr>)"
          using add by (auto simp add: s1_def addKeyToQueue_keyHold map_sum_def split: sum.splits)
        then show ?thesis
          using True one by (simp add: lhs released_take)
      qed
    qed
  qed
qed

lemma addKeyToQueue_read:
  "addKeyToQueue p k (s\<lparr>s_KeyQueueReadIndex := r\<rparr>)
     = map_sum id (\<lambda>t. t\<lparr>s_KeyQueueReadIndex := r\<rparr>) (addKeyToQueue p k s)"
  by (simp add: addKeyToQueue_def Let_def)

lemma enqueue_all_read:
  "enqueue_all evs (s\<lparr>s_KeyQueueReadIndex := r\<rparr>)
     = map_sum id (\<lambda>t. t\<lparr>s_KeyQueueReadIndex := r\<rparr>) (enqueue_all evs s)"
proof (induction evs arbitrary: s)
  case Nil
  then show ?case by simp
next
  case (Cons e evs)
  obtain p k where e: "e = (p, k)" by (cases e)
  show ?case
    by (cases "addKeyToQueue p k s") (simp_all add: e addKeyToQueue_read Cons.IH)
qed

lemma enqueue_all_shape:
  assumes "s_KeyQueueWriteIndex s < KEYQUEUE_SIZE"
  shows "\<exists>q w. enqueue_all evs s = Inr (s\<lparr>s_KeyQueue := q, s_KeyQueueWriteIndex := w\<rparr>)
           \<and> length q = length (s_KeyQueue s) \<and> w < KEYQUEUE_SIZE"
  using assms
proof (induction evs arbitrary: s)
  case Nil
  have "s = s\<lparr>s_KeyQueue := s_KeyQueue s, s_KeyQueueWriteIndex := s_KeyQueueWriteIndex s\<rparr>"
    by simp
  with Nil show ?case
    by (metis enqueue_all.simps(1))
next
  case (Cons e evs)
  obtain p k where e: "e = (p, k)" by (cases e)
  define s1 where "s1 = s\<lparr>s_KeyQueue := (s_KeyQueue s)[unat (s_KeyQueueWriteIndex s) :=
                ucast (push_bit 8 p OR ucast k :: 32 word)],
            s_KeyQueueWriteIndex := (s_KeyQueueWriteIndex s + 1) mod KEYQUEUE_SIZE\<rparr>"
  have add: "addKeyToQueue p k s = Inr s1"
    unfolding s1_def by (rule addKeyToQueue_Inr [OF Cons.prems])
  have "s_KeyQueueWriteIndex s1 < KEYQUEUE_SIZE"
    by (simp add: s1_def next_less)
  from Cons.IH [OF this] obtain q w
    where run: "enqueue_all evs s1 = Inr (s1\<lparr>s_KeyQueue := q, s_KeyQueueWriteIndex := w\<rparr>)"
      and q: "length q = length (s_KeyQueue s1)" and w: "w < KEYQUEUE_SIZE"
    by blast
  have same: "s1\<lparr>s_KeyQueue := q, s_KeyQueueWriteIndex := w\<rparr>
      = s\<lparr>s_KeyQueue := q, s_KeyQueueWriteIndex := w\<rparr>"
    by (simp add: s1_def)
  have "enqueue_all (e # evs) s = Inr (s\<lparr>s_KeyQueue := q, s_KeyQueueWriteIndex := w\<rparr>)"
    using add run by (simp add: e same)
  moreover have "length q = length (s_KeyQueue s)"
    using q by (simp add: s1_def)
  ultimately show ?case
    using w by blast
qed

text \<open>Enqueueing fewer than 16 events: the step has enqueued exactly these.\<close>

lemma enqueue_all_enqueued:
  assumes len: "length (s_KeyQueue s) = 16"
    and w: "s_KeyQueueWriteIndex s < KEYQUEUE_SIZE"
    and n: "length evs < 16"
    and p: "\<forall>e \<in> set evs. fst e < 256"
  shows "\<exists>q w. enqueue_all evs s = Inr (s\<lparr>s_KeyQueue := q, s_KeyQueueWriteIndex := w\<rparr>)
           \<and> length q = 16 \<and> w < KEYQUEUE_SIZE
           \<and> enqueued s (s\<lparr>s_KeyQueue := q, s_KeyQueueWriteIndex := w\<rparr>) = evs"
proof -
  define s0 where "s0 = s\<lparr>s_KeyQueueReadIndex := s_KeyQueueWriteIndex s\<rparr>"
  obtain q w' where run: "enqueue_all evs s = Inr (s\<lparr>s_KeyQueue := q, s_KeyQueueWriteIndex := w'\<rparr>)"
    and q: "length q = length (s_KeyQueue s)" and w': "w' < KEYQUEUE_SIZE"
    using enqueue_all_shape [OF w] by blast
  have run0: "enqueue_all evs s0
      = Inr (s\<lparr>s_KeyQueue := q, s_KeyQueueWriteIndex := w', s_KeyQueueReadIndex := s_KeyQueueWriteIndex s\<rparr>)"
    unfolding s0_def enqueue_all_read run by simp
  have w0: "s_KeyQueueWriteIndex s0 < KEYQUEUE_SIZE" and r0: "s_KeyQueueReadIndex s0 < KEYQUEUE_SIZE"
    and len0: "length (s_KeyQueue s0) = 16"
    using w len by (simp_all add: s0_def)
  have empty: "pending s0 = []"
    using pending_Nil_iff [OF w0 r0] by (simp add: s0_def)
  obtain q2 w2 where run2: "enqueue_all evs s0 = Inr (s0\<lparr>s_KeyQueue := q2, s_KeyQueueWriteIndex := w2\<rparr>)"
    and pend: "pending (s0\<lparr>s_KeyQueue := q2, s_KeyQueueWriteIndex := w2\<rparr>) = pending s0 @ evs"
    using enqueue_all_pending [OF len0 w0 r0 _ p] n empty by auto
  have "s0\<lparr>s_KeyQueue := q2, s_KeyQueueWriteIndex := w2\<rparr>
      = s\<lparr>s_KeyQueue := q, s_KeyQueueWriteIndex := w', s_KeyQueueReadIndex := s_KeyQueueWriteIndex s\<rparr>"
    using run0 run2 by simp
  then have "enqueued s (s\<lparr>s_KeyQueue := q, s_KeyQueueWriteIndex := w'\<rparr>) = evs"
    using pend empty by (simp add: enqueued_def)
  then show ?thesis
    using run q w' len by auto
qed

lemma released_props:
  "length (released i keys h) < 16" "\<forall>e \<in> set (released i keys h). fst e < 256"
proof -
  have "length (released i keys h) \<le> length [i..<KEY_HOLD_KEYS]"
    unfolding released_def length_map by (rule length_filter_le)
  then show "length (released i keys h) < 16"
    by (simp add: KEY_HOLD_KEYS_def)
  show "\<forall>e \<in> set (released i keys h). fst e < 256"
    by (auto simp add: released_def)
qed

text \<open>What one tick does.\<close>

lemma tick_effect:
  assumes ok: "tables_ok s"
  shows "\<exists>q w. decrementKeyCtrs s
             = Inr (s\<lparr>keyHold := aged 0 (keyHold s), s_KeyQueue := q, s_KeyQueueWriteIndex := w\<rparr>)
           \<and> length q = 16 \<and> w < KEYQUEUE_SIZE
           \<and> enqueued s (s\<lparr>keyHold := aged 0 (keyHold s), s_KeyQueue := q, s_KeyQueueWriteIndex := w\<rparr>)
               = released 0 (keyHoldKeys s) (keyHold s)"
proof -
  define sh where "sh = s\<lparr>keyHold := aged 0 (keyHold s)\<rparr>"
  have len: "length (s_KeyQueue sh) = 16" and w: "s_KeyQueueWriteIndex sh < KEYQUEUE_SIZE"
    using ok by (simp_all add: sh_def tables_ok_def)
  obtain q w' where run: "enqueue_all (released 0 (keyHoldKeys s) (keyHold s)) sh
        = Inr (sh\<lparr>s_KeyQueue := q, s_KeyQueueWriteIndex := w'\<rparr>)"
    and q: "length q = 16" and w': "w' < KEYQUEUE_SIZE"
    and enq: "enqueued sh (sh\<lparr>s_KeyQueue := q, s_KeyQueueWriteIndex := w'\<rparr>)
        = released 0 (keyHoldKeys s) (keyHold s)"
    using enqueue_all_enqueued [OF len w released_props] by blast
  have "decrementKeyCtrs s = Inr (sh\<lparr>s_KeyQueue := q, s_KeyQueueWriteIndex := w'\<rparr>)"
    unfolding decrementKeyCtrs_def tick_loop_closed [OF ok] using run by (simp add: sh_def)
  moreover have "enqueued s (sh\<lparr>s_KeyQueue := q, s_KeyQueueWriteIndex := w'\<rparr>)
        = released 0 (keyHoldKeys s) (keyHold s)"
    using enq by (simp add: enqueued_def sh_def)
  ultimately show ?thesis
    using q w' unfolding sh_def by blast
qed

lemma pressKey_loop_first:
  assumes "j0 < KEY_HOLD_KEYS" and "keyHoldKeys s ! j0 = K"
    and "\<forall>j<j0. keyHoldKeys s ! j \<noteq> K" and "i \<le> j0"
  shows "pressKey_loop i K s = s\<lparr>keyHold := (keyHold s)[j0 := KEY_HOLD_FRAMES]\<rparr>"
  using assms
proof (induction i K s rule: pressKey_loop.induct)
  case (1 j key s)
  show ?case
  proof (cases "j = j0")
    case True
    then show ?thesis
      using "1.prems" by (subst pressKey_loop.simps) simp
  next
    case False
    then have lt: "j < j0"
      using "1.prems"(4) by simp
    then have "pressKey_loop j key s = pressKey_loop (j + 1) key s"
      using "1.prems" by (subst pressKey_loop.simps) simp
    also have "\<dots> = s\<lparr>keyHold := (keyHold s)[j0 := KEY_HOLD_FRAMES]\<rparr>"
      using lt "1.prems" by (intro "1.IH") simp_all
    finally show ?thesis .
  qed
qed

text \<open>What a press of a key of the hold table does.\<close>

lemma press_effect:
  assumes ok: "tables_ok s" and j0: "j0 < KEY_HOLD_KEYS" and K: "keyHoldKeys s ! j0 = K"
    and first: "\<forall>j<j0. keyHoldKeys s ! j \<noteq> K"
  shows "\<exists>t. pressKey K s = Inr t \<and> tables_ok t \<and> keyHoldKeys t = keyHoldKeys s
           \<and> keyHold t = (keyHold s)[j0 := KEY_HOLD_FRAMES]"
proof -
  obtain s1 where add: "addKeyToQueue 1 K s = Inr s1" and ok1: "tables_ok s1"
    and h1: "keyHold s1 = keyHold s" and k1: "keyHoldKeys s1 = keyHoldKeys s"
    using addKeyToQueue_tables [OF ok] by blast
  have loop: "pressKey_loop 0 K s1 = s1\<lparr>keyHold := (keyHold s1)[j0 := KEY_HOLD_FRAMES]\<rparr>"
    using j0 K first by (intro pressKey_loop_first) (simp_all add: k1)
  have "pressKey K s = Inr (s1\<lparr>keyHold := (keyHold s1)[j0 := KEY_HOLD_FRAMES]\<rparr>)"
    by (simp add: pressKey_def add loop)
  moreover have "tables_ok (s1\<lparr>keyHold := (keyHold s1)[j0 := KEY_HOLD_FRAMES]\<rparr>)"
    using ok1 by (simp add: tables_ok_def)
  ultimately show ?thesis
    by (simp add: h1 k1)
qed

lemma tick_step:
  assumes ok: "tables_ok s"
  shows "\<exists>t. decrementKeyCtrs s = Inr t \<and> tables_ok t \<and> keyHoldKeys t = keyHoldKeys s
           \<and> keyHold t = aged 0 (keyHold s)
           \<and> enqueued s t = released 0 (keyHoldKeys s) (keyHold s)"
proof -
  obtain q w where "decrementKeyCtrs s
             = Inr (s\<lparr>keyHold := aged 0 (keyHold s), s_KeyQueue := q, s_KeyQueueWriteIndex := w\<rparr>)"
    and "length q = 16" and "w < KEYQUEUE_SIZE"
    and "enqueued s (s\<lparr>keyHold := aged 0 (keyHold s), s_KeyQueue := q, s_KeyQueueWriteIndex := w\<rparr>)
               = released 0 (keyHoldKeys s) (keyHold s)"
    using tick_effect [OF ok] by blast
  moreover have "tables_ok (s\<lparr>keyHold := aged 0 (keyHold s), s_KeyQueue := q, s_KeyQueueWriteIndex := w\<rparr>)"
    using ok calculation(2,3) by (simp add: tables_ok_def length_aged)
  ultimately show ?thesis
    by simp
qed

lemma aged_nth:
  "j < length h \<Longrightarrow> aged 0 h ! j = (if 0 < h ! j then h ! j - 1 else h ! j)"
  by (simp add: aged_def)

lemma count_list_map_filter:
  "count_list (map f (filter P xs)) y = length (filter (\<lambda>x. P x \<and> f x = y) xs)"
  by (induction xs) simp_all

lemma released_count:
  assumes len: "length keys = 7" and d: "distinct keys" and j0: "j0 < 7"
  shows "count_list (released 0 keys h) (0, keys ! j0) = (if h ! j0 = 1 then 1 else 0)"
proof -
  have "filter (\<lambda>j. h ! j = 1 \<and> (0 :: 32 word, keys ! j) = (0, keys ! j0)) [0..<7]
      = filter (\<lambda>j. j = j0 \<and> h ! j0 = 1) [0..<7]"
    using d len j0 by (intro filter_cong) (auto simp add: nth_eq_iff_index_eq)
  also have "length \<dots> = card ({j. j = j0 \<and> h ! j0 = 1} \<inter> set [0..<7])"
    by (rule distinct_length_filter) simp
  also have "{j. j = j0 \<and> h ! j0 = 1} \<inter> set [0..<7] = (if h ! j0 = 1 then {j0} else {})"
    using j0 by auto
  finally show ?thesis
    by (simp add: released_def count_list_map_filter KEY_HOLD_KEYS_def)
qed

lemma released_absent:
  assumes "length keys = 7" and "distinct keys" and "j0 < 7" and "h ! j0 \<noteq> 1"
  shows "(0, keys ! j0) \<notin> set (released 0 keys h)"
proof -
  have "count_list (released 0 keys h) (0, keys ! j0) = 0"
    using released_count [OF assms(1-3)] assms(4) by simp
  then show ?thesis
    by (simp add: count_list_0_iff)
qed

lemma holdable_index:
  assumes ok: "tables_ok s" and d: "distinct (keyHoldKeys s)" and K: "K \<in> set (keyHoldKeys s)"
  obtains j0 where "j0 < 7" and "keyHoldKeys s ! j0 = K" and "\<forall>j<j0. keyHoldKeys s ! j \<noteq> K"
proof -
  have len: "length (keyHoldKeys s) = 7"
    using ok by (simp add: tables_ok_def)
  obtain j0 where j0: "j0 < 7" and at: "keyHoldKeys s ! j0 = K"
    using K len by (auto simp add: in_set_conv_nth)
  have "\<forall>j<j0. keyHoldKeys s ! j \<noteq> K"
    using d j0 len at by (auto simp add: nth_eq_iff_index_eq)
  with j0 at show ?thesis
    by (rule that)
qed

lemma ticks_one:
  "decrementKeyCtrs s = Inr t \<Longrightarrow> ticks (Suc 0) s = Inr ([enqueued s t], t)"
  by simp




text \<open>
  Claim C7. With \<open>N = KEY_HOLD_FRAMES\<close>: after \<^verbatim>\<open>pressKey(K)\<close>, \<open>N - 1\<close> ticks and a
  second \<^verbatim>\<open>pressKey(K)\<close>, the hold counter of \<open>K\<close> is \<open>N\<close> again; the next
  \<open>N - 1\<close> ticks enqueue no release event \<open>(0, K)\<close> (nor did the first \<open>N - 1\<close>),
  and one more tick enqueues it exactly once.
\<close>

theorem repress_restarts_hold:
  assumes ok: "tables_ok s" and d: "distinct (keyHoldKeys s)" and K: "K \<in> set (keyHoldKeys s)"
  shows "\<exists>s1 e1 s2 s3 e2 s4 e3 s5.
           pressKey K s = Inr s1
           \<and> ticks (nat KEY_HOLD_FRAMES - 1) s1 = Inr (e1, s2)
           \<and> pressKey K s2 = Inr s3
           \<and> (\<forall>j<KEY_HOLD_KEYS. keyHoldKeys s3 ! j = K \<longrightarrow> keyHold s3 ! j = KEY_HOLD_FRAMES)
           \<and> ticks (nat KEY_HOLD_FRAMES - 1) s3 = Inr (e2, s4)
           \<and> ticks 1 s4 = Inr (e3, s5)
           \<and> (0, K) \<notin> set (concat e1)
           \<and> (0, K) \<notin> set (concat e2)
           \<and> count_list (concat e3) (0, K) = 1"
proof -
  obtain j0 where j0: "j0 < 7" and at: "keyHoldKeys s ! j0 = K"
    and first: "\<forall>j<j0. keyHoldKeys s ! j \<noteq> K"
    using holdable_index [OF ok d K] by blast
  have len: "length (keyHoldKeys s) = 7" and lenh: "length (keyHold s) = 7"
    using ok by (simp_all add: tables_ok_def)
  define h1 where "h1 = (keyHold s)[j0 := KEY_HOLD_FRAMES]"
  define h3 where "h3 = (aged 0 h1)[j0 := KEY_HOLD_FRAMES]"
  obtain s1 where press1: "pressKey K s = Inr s1" and ok1: "tables_ok s1"
    and k1: "keyHoldKeys s1 = keyHoldKeys s" and hold1: "keyHold s1 = h1"
    using press_effect [OF ok _ at first] j0 by (auto simp add: KEY_HOLD_KEYS_def h1_def)
  obtain s2 where tick1: "decrementKeyCtrs s1 = Inr s2" and ok2: "tables_ok s2"
    and k2: "keyHoldKeys s2 = keyHoldKeys s" and hold2: "keyHold s2 = aged 0 h1"
    and e1: "enqueued s1 s2 = released 0 (keyHoldKeys s) h1"
    using tick_step [OF ok1] by (auto simp add: k1 hold1)
  have at2: "keyHoldKeys s2 ! j0 = K" and first2: "\<forall>j<j0. keyHoldKeys s2 ! j \<noteq> K"
    using at first by (simp_all add: k2)
  obtain s3 where press2: "pressKey K s2 = Inr s3" and ok3: "tables_ok s3"
    and k3: "keyHoldKeys s3 = keyHoldKeys s" and hold3: "keyHold s3 = h3"
    using press_effect [OF ok2 _ at2 first2] j0
    by (auto simp add: KEY_HOLD_KEYS_def h3_def k2 hold2)
  obtain s4 where tick2: "decrementKeyCtrs s3 = Inr s4" and ok4: "tables_ok s4"
    and k4: "keyHoldKeys s4 = keyHoldKeys s" and hold4: "keyHold s4 = aged 0 h3"
    and e2: "enqueued s3 s4 = released 0 (keyHoldKeys s) h3"
    using tick_step [OF ok3] by (auto simp add: k3 hold3)
  obtain s5 where tick3: "decrementKeyCtrs s4 = Inr s5"
    and e3: "enqueued s4 s5 = released 0 (keyHoldKeys s) (aged 0 h3)"
    using tick_step [OF ok4] by (auto simp add: k4 hold4)
  have lenh1: "length h1 = 7" and lenh3: "length h3 = 7"
    using lenh by (simp_all add: h1_def h3_def length_aged)
  have v1: "h1 ! j0 = 2" and v3: "h3 ! j0 = 2"
    using j0 lenh by (simp_all add: h1_def h3_def KEY_HOLD_FRAMES_def length_aged)
  have v4: "aged 0 h3 ! j0 = 1"
    using j0 lenh3 v3 by (simp add: aged_nth)
  have none1: "(0, K) \<notin> set (enqueued s1 s2)"
    using released_absent [OF len d j0, of h1] v1 by (simp add: e1 at)
  have none2: "(0, K) \<notin> set (enqueued s3 s4)"
    using released_absent [OF len d j0, of h3] v3 by (simp add: e2 at)
  have one: "count_list (enqueued s4 s5) (0, K) = 1"
    using released_count [OF len d j0, of "aged 0 h3"] v4 by (simp add: e3 at)
  have full: "\<forall>j<KEY_HOLD_KEYS. keyHoldKeys s3 ! j = K \<longrightarrow> keyHold s3 ! j = KEY_HOLD_FRAMES"
    using d len at j0 v3
    by (auto simp add: k3 hold3 KEY_HOLD_KEYS_def KEY_HOLD_FRAMES_def nth_eq_iff_index_eq)
  have n1: "nat KEY_HOLD_FRAMES - 1 = Suc 0"
    by (simp add: KEY_HOLD_FRAMES_def)
  have t1: "ticks (nat KEY_HOLD_FRAMES - 1) s1 = Inr ([enqueued s1 s2], s2)"
    unfolding n1 by (rule ticks_one [OF tick1])
  have t2: "ticks (nat KEY_HOLD_FRAMES - 1) s3 = Inr ([enqueued s3 s4], s4)"
    unfolding n1 by (rule ticks_one [OF tick2])
  have t3: "ticks 1 s4 = Inr ([enqueued s4 s5], s5)"
    using ticks_one [OF tick3] by simp
  show ?thesis
    using press1 t1 press2 full t2 t3 none1 none2 one
    by (intro exI [of _ s1] exI [of _ "[enqueued s1 s2]"] exI [of _ s2] exI [of _ s3]
        exI [of _ "[enqueued s3 s4]"] exI [of _ s4] exI [of _ "[enqueued s4 s5]"] exI [of _ s5])
      simp
qed

theorem repress_restarts_hold_witness:
  "tables_ok (start_globals example_keys) \<and> distinct (keyHoldKeys (start_globals example_keys))
   \<and> 0xA3 \<in> set (keyHoldKeys (start_globals example_keys))
   \<and> (\<exists>s1 e1 s2 s3 e2 s4 e3 s5.
           pressKey 0xA3 (start_globals example_keys) = Inr s1
           \<and> ticks (nat KEY_HOLD_FRAMES - 1) s1 = Inr (e1, s2)
           \<and> pressKey 0xA3 s2 = Inr s3
           \<and> (\<forall>j<KEY_HOLD_KEYS. keyHoldKeys s3 ! j = 0xA3 \<longrightarrow> keyHold s3 ! j = KEY_HOLD_FRAMES)
           \<and> ticks (nat KEY_HOLD_FRAMES - 1) s3 = Inr (e2, s4)
           \<and> ticks 1 s4 = Inr (e3, s5)
           \<and> (0, 0xA3) \<notin> set (concat e1)
           \<and> (0, 0xA3) \<notin> set (concat e2)
           \<and> count_list (concat e3) (0, 0xA3) = 1)"
proof -
  have ok: "tables_ok (start_globals example_keys)"
    by (simp add: tables_ok_def start_globals_def example_keys_def KEYQUEUE_SIZE_def)
  have d: "distinct (keyHoldKeys (start_globals example_keys))"
    by (simp add: start_globals_def example_keys_def)
  have K: "0xA3 \<in> set (keyHoldKeys (start_globals example_keys))"
    by (simp add: start_globals_def example_keys_def)
  from repress_restarts_hold [OF ok d K] ok d K show ?thesis
    by blast
qed

section \<open>The renderer\<close>

lemma grad_at_glyph: "grad_at (ramp_index (brightness px)) = Inr (glyph px)"
  unfolding glyph_def by (rule grad_at_ramp_index [OF brightness_le])

lemma take_two_updates:
  "k + 2 \<le> length m \<Longrightarrow> take (k + 2) (m[k := c, Suc k := d]) = take k m @ [c, d]"
  by (simp add: take_Suc_conv_app_nth nth_list_update numeral_2_eq_2)

lemma put_two:
  assumes "k + 2 \<le> length m"
  shows "put_byte m k c = Inr (m[k := c])"
    and "put_byte (m[k := c]) (k + 1) d = Inr (m[k := c, Suc k := d])"
  using assms by (simp_all add: put_byte_def)

text \<open>The inner loop from column \<open>col\<close> on, in row \<open>row\<close>.\<close>

lemma draw_cols_run:
  assumes "col \<le> resx" and "pixel = p0 + col" and "buf = b0 + 2 * col"
    and "p0 + resx \<le> length scr" and "b0 + 2 * resx \<le> length mem"
  shows "draw_cols resx scr col pixel mem buf =
           Inr (p0 + resx,
                take buf mem
                  @ concat (map (\<lambda>c. [glyph (scr ! (p0 + c)), glyph (scr ! (p0 + c))]) [col..<resx])
                  @ drop (b0 + 2 * resx) mem,
                b0 + 2 * resx)"
  using assms
proof (induction resx scr col pixel mem buf rule: draw_cols.induct)
  case (1 resx scr col pixel mem buf)
  show ?case
  proof (cases "col < resx")
    case False
    then have "col = resx"
      using "1.prems"(1) by simp
    then show ?thesis
      using "1.prems" by (subst draw_cols.simps) simp
  next
    case True
    define c where "c = glyph (scr ! pixel)"
    define mem2 where "mem2 = mem[buf := c, Suc buf := c]"
    have inb: "pixel < length scr" and room: "buf + 2 \<le> length mem"
      using True "1.prems" by simp_all
    have step: "draw_cols resx scr col pixel mem buf
        = draw_cols resx scr (col + 1) (pixel + 1) mem2 (buf + 2)"
      using True inb put_two(1) [OF room, of c] put_two(2) [OF room, of c c]
      by (subst draw_cols.simps) (simp add: grad_at_glyph c_def mem2_def)
    have "draw_cols resx scr (col + 1) (pixel + 1) mem2 (buf + 2) =
           Inr (p0 + resx,
                take (buf + 2) mem2
                  @ concat (map (\<lambda>c. [glyph (scr ! (p0 + c)), glyph (scr ! (p0 + c))]) [col + 1..<resx])
                  @ drop (b0 + 2 * resx) mem2,
                b0 + 2 * resx)"
    proof (rule "1.IH" [OF True inb])
      show "grad_at (ramp_index (brightness (scr ! pixel))) = Inr c"
        by (simp add: grad_at_glyph c_def)
      show "put_byte mem buf c = Inr (mem[buf := c])"
        by (rule put_two(1) [OF room])
      show "put_byte (mem[buf := c]) (buf + 1) c = Inr mem2"
        unfolding mem2_def by (rule put_two(2) [OF room])
      show "col + 1 \<le> resx" using True by simp
      show "pixel + 1 = p0 + (col + 1)" using "1.prems"(2) by simp
      show "buf + 2 = b0 + 2 * (col + 1)" using "1.prems"(3) by simp
      show "p0 + resx \<le> length scr" by (rule "1.prems"(4))
      show "b0 + 2 * resx \<le> length mem2" using "1.prems"(5) by (simp add: mem2_def)
    qed
    moreover have "take (buf + 2) mem2 = take buf mem @ [c, c]"
      unfolding mem2_def by (rule take_two_updates [OF room])
    moreover have "drop (b0 + 2 * resx) mem2 = drop (b0 + 2 * resx) mem"
      using True "1.prems"(3) by (simp add: mem2_def)
    moreover have "[col..<resx] = col # [col + 1..<resx]"
      using True by (simp add: upt_conv_Cons)
    ultimately show ?thesis
      using step "1.prems"(2) by (simp add: c_def)
  qed
qed

lemma length_glyphs:
  "length (concat (map (\<lambda>c. [f c, f c]) cs)) = 2 * length cs"
  by (induction cs) simp_all

lemma row_end:
  assumes "length g = n" and "k + n < length m"
  shows "take (k + n + 1) ((take k m @ g @ drop (k + n) m)[k + n := x]) = take k m @ g @ [x]"
    and "k + n < j \<Longrightarrow> drop j ((take k m @ g @ drop (k + n) m)[k + n := x]) = drop j m"
    and "length (take k m @ g @ drop (k + n) m) = length m"
proof -
  have k: "length (take k m) = k"
    using assms(2) by simp
  have upd: "(take k m @ g @ drop (k + n) m)[k + n := x]
      = take k m @ g @ (drop (k + n) m)[0 := x]"
    using assms(1) k by (simp add: list_update_append)
  obtain y ys where d: "drop (k + n) m = y # ys"
    using assms(2) by (cases "drop (k + n) m") simp_all
  have eq: "(take k m @ g @ drop (k + n) m)[k + n := x] = take k m @ g @ x # ys"
    unfolding upd by (simp add: d)
  show "take (k + n + 1) ((take k m @ g @ drop (k + n) m)[k + n := x]) = take k m @ g @ [x]"
    unfolding eq using assms(1) k by simp
  show "length (take k m @ g @ drop (k + n) m) = length m"
    using assms by simp
  show "drop j ((take k m @ g @ drop (k + n) m)[k + n := x]) = drop j m" if "k + n < j"
  proof -
    have "drop j ((take k m @ g @ drop (k + n) m)[k + n := x])
        = drop j (take k m @ g @ drop (k + n) m)"
      using that by simp
    also have "\<dots> = drop (j - (k + n)) (drop (k + n) m)"
      using that assms(1) k by simp
    also have "\<dots> = drop j m"
      using that by simp
    finally show ?thesis .
  qed
qed

text \<open>The outer loop from row \<open>row\<close> on.\<close>

lemma draw_rows_run:
  assumes "row \<le> resy" and "pixel = row * resx" and "buf = row * (2 * resx + 1)"
    and "resy * resx \<le> length scr" and "resy * (2 * resx + 1) \<le> length mem"
  shows "draw_rows resx resy scr row pixel mem buf =
           Inr (resy * resx,
                take buf mem @ concat (map (row_text resx scr) [row..<resy])
                  @ drop (resy * (2 * resx + 1)) mem,
                resy * (2 * resx + 1))"
  using assms
proof (induction resx resy scr row pixel mem buf rule: draw_rows.induct)
  case (1 resx resy scr row pixel mem buf)
  show ?case
  proof (cases "row < resy")
    case False
    then have "row = resy"
      using "1.prems"(1) by simp
    then show ?thesis
      using "1.prems" by (subst draw_rows.simps) simp
  next
    case True
    define g where "g = concat (map (\<lambda>c. [glyph (scr ! (pixel + c)), glyph (scr ! (pixel + c))]) [0..<resx])"
    define mem1 where "mem1 = take buf mem @ g @ drop (buf + 2 * resx) mem"
    define mem2 where "mem2 = mem1[buf + 2 * resx := CHR 0x0A]"
    have "Suc row \<le> resy"
      using True by simp
    then have "Suc row * resx \<le> resy * resx" and "Suc row * (2 * resx + 1) \<le> resy * (2 * resx + 1)"
      by (simp_all only: mult_le_mono1)
    then have scr: "pixel + resx \<le> length scr" and room: "buf + 2 * resx < length mem"
      and below: "buf + 2 * resx < resy * (2 * resx + 1)"
      using "1.prems" by simp_all
    have lg: "length g = 2 * resx"
      by (simp add: g_def length_glyphs)
    have cols: "draw_cols resx scr 0 pixel mem buf = Inr (pixel + resx, mem1, buf + 2 * resx)"
      using draw_cols_run [of 0 resx pixel pixel buf buf scr mem] scr room
      by (simp add: mem1_def g_def)
    have put: "put_byte mem1 (buf + 2 * resx) (CHR 0x0A) = Inr mem2"
      using room row_end(3) [OF lg room] by (simp add: put_byte_def mem1_def mem2_def)
    have step: "draw_rows resx resy scr row pixel mem buf
        = draw_rows resx resy scr (row + 1) (pixel + resx) mem2 (buf + 2 * resx + 1)"
      using True cols put by (subst draw_rows.simps) simp
    have "draw_rows resx resy scr (row + 1) (pixel + resx) mem2 (buf + 2 * resx + 1) =
           Inr (resy * resx,
                take (buf + 2 * resx + 1) mem2 @ concat (map (row_text resx scr) [row + 1..<resy])
                  @ drop (resy * (2 * resx + 1)) mem2,
                resy * (2 * resx + 1))"
    proof (rule "1.IH" [OF True cols refl refl put])
      show "row + 1 \<le> resy" using True by simp
      show "pixel + resx = (row + 1) * resx" using "1.prems"(2) by simp
      show "buf + 2 * resx + 1 = (row + 1) * (2 * resx + 1)" using "1.prems"(3) by simp
      show "resy * resx \<le> length scr" by (rule "1.prems"(4))
      show "resy * (2 * resx + 1) \<le> length mem2"
        using "1.prems"(5) row_end(3) [OF lg room] by (simp add: mem2_def mem1_def)
    qed
    moreover have "take (buf + 2 * resx + 1) mem2 = take buf mem @ row_text resx scr row"
      using row_end(1) [OF lg room, of "CHR 0x0A"] "1.prems"(2)
      by (simp add: mem2_def mem1_def row_text_def g_def)
    moreover have "drop (resy * (2 * resx + 1)) mem2 = drop (resy * (2 * resx + 1)) mem"
      unfolding mem2_def mem1_def by (rule row_end(2) [OF lg room below])
    moreover have "[row..<resy] = row # [row + 1..<resy]"
      using True by (simp add: upt_conv_Cons)
    ultimately show ?thesis
      using step by simp
  qed
qed

lemma ramp_chars:
  "CHR 0x00 \<notin> set (take 70 grad)" "CHR 0x0A \<notin> set (take 70 grad)"
  by (simp_all add: grad_def)

lemma glyph_in_ramp: "glyph px \<in> set (take 70 grad)"
proof -
  have i: "unat (ramp_index (brightness px)) < 70"
    using ramp_index_less [OF brightness_le, of px] by (simp add: GRAD_LEN_def word_less_nat_alt)
  then have "take 70 grad ! unat (ramp_index (brightness px)) \<in> set (take 70 grad)"
    by (intro nth_mem) (simp add: length_grad)
  then show ?thesis
    using i by (simp add: glyph_def)
qed

lemma glyph_plain: "glyph px \<noteq> CHR 0x00" "glyph px \<noteq> CHR 0x0A"
  using glyph_in_ramp [of px] ramp_chars by auto

lemma row_text_props:
  "length (row_text w scr row) = 2 * w + 1"
  "CHR 0x00 \<notin> set (row_text w scr row)"
  "count_list (row_text w scr row) (CHR 0x0A) = 1"
  "length (filter (\<lambda>c. c \<noteq> CHR 0x0A) (row_text w scr row)) = 2 * w"
proof -
  define f where "f = (\<lambda>col. glyph (scr ! (row * w + col)))"
  have plain: "f c \<noteq> CHR 0x00" "f c \<noteq> CHR 0x0A" for c
    by (simp_all add: f_def glyph_plain)
  have r: "row_text w scr row = concat (map (\<lambda>c. [f c, f c]) [0..<w]) @ [CHR 0x0A]"
    by (simp add: row_text_def f_def)
  have a: "CHR 0x00 \<notin> set (concat (map (\<lambda>c. [f c, f c]) cs))" for cs
    by (induction cs) (simp_all add: plain plain [symmetric])
  have b: "count_list (concat (map (\<lambda>c. [f c, f c]) cs)) (CHR 0x0A) = 0" for cs
    by (induction cs) (simp_all add: plain plain [symmetric])
  have c: "filter (\<lambda>c. c \<noteq> CHR 0x0A) (concat (map (\<lambda>c. [f c, f c]) cs))
      = concat (map (\<lambda>c. [f c, f c]) cs)" for cs
    by (induction cs) (simp_all add: plain plain [symmetric])
  show "length (row_text w scr row) = 2 * w + 1"
    by (simp add: r length_glyphs)
  show "CHR 0x00 \<notin> set (row_text w scr row)"
    using a [of "[0..<w]"] unfolding r by simp
  show "count_list (row_text w scr row) (CHR 0x0A) = 1"
    by (simp add: r b)
  show "length (filter (\<lambda>c. c \<noteq> CHR 0x0A) (row_text w scr row)) = 2 * w"
    by (simp add: r c length_glyphs)
qed

lemma frame_text_Suc: "frame_text w (Suc h) scr = frame_text w h scr @ row_text w scr h"
  by (simp add: frame_text_def)

lemma frame_text_props:
  "length (frame_text w h scr) = h * (2 * w + 1)"
  "CHR 0x00 \<notin> set (frame_text w h scr)"
  "count_list (frame_text w h scr) (CHR 0x0A) = h"
  "length (filter (\<lambda>c. c \<noteq> CHR 0x0A) (frame_text w h scr)) = 2 * w * h"
proof -
  show "length (frame_text w h scr) = h * (2 * w + 1)"
    by (induction h) (simp_all add: frame_text_Suc row_text_props(1), simp add: frame_text_def)
  show "CHR 0x00 \<notin> set (frame_text w h scr)"
    using row_text_props(2) by (auto simp add: frame_text_def)
  show "count_list (frame_text w h scr) (CHR 0x0A) = h"
    by (induction h) (simp_all add: frame_text_Suc row_text_props(3), simp add: frame_text_def)
  show "length (filter (\<lambda>c. c \<noteq> CHR 0x0A) (frame_text w h scr)) = 2 * w * h"
    by (induction h) (simp_all add: frame_text_Suc row_text_props(4), simp add: frame_text_def)
qed

lemma frame_text_black:
  assumes len: "length scr = w * h"
    and black: "\<forall>p \<in> set scr. pixel_r p = 0 \<and> pixel_g p = 0 \<and> pixel_b p = 0"
  shows "frame_text w h scr = concat (replicate h (replicate (2 * w) (hd grad) @ [CHR 0x0A]))"
proof -
  have g0: "glyph p = hd grad" if "p \<in> set scr" for p
    using black that by (simp add: glyph_def brightness_def ramp_index_def grad_def)
  have twice: "concat (map (\<lambda>c. [x, x]) cs) = replicate (2 * length cs) x" for x :: char and cs :: "nat list"
    by (induction cs) simp_all
  have row: "row_text w scr row = replicate (2 * w) (hd grad) @ [CHR 0x0A]" if "row < h" for row
  proof -
    have "glyph (scr ! (row * w + col)) = hd grad" if "col < w" for col
    proof -
      have "Suc row * w \<le> h * w"
        using \<open>row < h\<close> by (simp only: mult_le_mono1 Suc_leI)
      then have "row * w + col < length scr"
        using that len by (simp add: mult.commute)
      then show ?thesis
        by (intro g0 nth_mem)
    qed
    then have eq: "map (\<lambda>col. [glyph (scr ! (row * w + col)), glyph (scr ! (row * w + col))]) [0..<w]
        = map (\<lambda>col. [hd grad, hd grad]) [0..<w]"
      by (intro map_cong) simp_all
    show ?thesis
      unfolding row_text_def eq by (simp add: twice)
  qed
  have eq: "map (row_text w scr) [0..<h] = map (\<lambda>_. replicate (2 * w) (hd grad) @ [CHR 0x0A]) [0..<h]"
    using row by (intro map_cong) simp_all
  show ?thesis
    unfolding frame_text_def eq by (simp add: map_replicate_const)
qed

lemma addKeyToQueue_render:
  "addKeyToQueue p k (s\<lparr>output_buffer := m, stdout := out\<rparr>)
     = map_sum id (\<lambda>t. t\<lparr>output_buffer := m, stdout := out\<rparr>) (addKeyToQueue p k s)"
  by (simp add: addKeyToQueue_def Let_def)

lemma enqueue_all_render:
  "enqueue_all evs (s\<lparr>output_buffer := m, stdout := out\<rparr>)
     = map_sum id (\<lambda>t. t\<lparr>output_buffer := m, stdout := out\<rparr>) (enqueue_all evs s)"
proof (induction evs arbitrary: s)
  case Nil
  then show ?case by simp
next
  case (Cons e evs)
  obtain p k where e: "e = (p, k)" by (cases e)
  show ?case
    by (cases "addKeyToQueue p k s") (simp_all add: e addKeyToQueue_render Cons.IH)
qed

text \<open>A tick neither reads nor writes the output buffer and the output stream.\<close>

lemma tick_render:
  assumes "tables_ok s"
  shows "decrementKeyCtrs (s\<lparr>output_buffer := m, stdout := out\<rparr>)
           = map_sum id (\<lambda>t. t\<lparr>output_buffer := m, stdout := out\<rparr>) (decrementKeyCtrs s)"
proof -
  define s' where "s' = s\<lparr>output_buffer := m, stdout := out\<rparr>"
  have ok': "tables_ok s'"
    using assms by (simp add: tables_ok_def s'_def)
  have 1: "decrementKeyCtrs s' = enqueue_all (released 0 (keyHoldKeys s') (keyHold s'))
      (s'\<lparr>keyHold := aged 0 (keyHold s')\<rparr>)"
    by (simp only: decrementKeyCtrs_def tick_loop_closed [OF ok'])
  have 2: "keyHoldKeys s' = keyHoldKeys s" "keyHold s' = keyHold s"
    by (simp_all add: s'_def)
  have 3: "s'\<lparr>keyHold := aged 0 (keyHold s)\<rparr>
      = (s\<lparr>keyHold := aged 0 (keyHold s)\<rparr>)\<lparr>output_buffer := m, stdout := out\<rparr>"
    by (simp add: s'_def)
  have 4: "decrementKeyCtrs s = enqueue_all (released 0 (keyHoldKeys s) (keyHold s))
      (s\<lparr>keyHold := aged 0 (keyHold s)\<rparr>)"
    by (simp only: decrementKeyCtrs_def tick_loop_closed [OF assms])
  show ?thesis
    unfolding s'_def [symmetric] 1 2 3 4 by (rule enqueue_all_render)
qed

text \<open>A tick with no positive hold counter changes nothing.\<close>

lemma tick_idle:
  assumes ok: "tables_ok s" and idle: "\<forall>j<KEY_HOLD_KEYS. keyHold s ! j \<le> 0"
  shows "decrementKeyCtrs s = Inr s"
proof -
  have len: "length (keyHold s) = 7"
    using ok by (simp add: tables_ok_def)
  have "filter (\<lambda>j. keyHold s ! j = 1) [0..<KEY_HOLD_KEYS] = []"
    using idle by (auto simp add: filter_empty_conv)
  then have none: "released 0 (keyHoldKeys s) (keyHold s) = []"
    by (simp add: released_def)
  have same: "aged 0 (keyHold s) = keyHold s"
    using idle len by (intro nth_equalityI) (auto simp add: aged_def KEY_HOLD_KEYS_def)
  show ?thesis
    unfolding decrementKeyCtrs_def tick_loop_closed [OF ok] none same by simp
qed

lemma printf_s_text:
  assumes "CHR 0x00 \<notin> set ftxt"
  shows "printf_s (ftxt @ CHR 0x00 # rest) = Inr ftxt"
proof -
  have "takeWhile (\<lambda>c. c \<noteq> CHR 0x00) (ftxt @ CHR 0x00 # rest) = takeWhile (\<lambda>c. c \<noteq> CHR 0x00) ftxt"
    by (rule takeWhile_tail) simp
  also have "\<dots> = ftxt"
    using assms by (simp add: takeWhile_eq_all_conv) metis
  finally show ?thesis
    by (simp add: printf_s_def)
qed

text \<open>The two loops write the text of the frame at the start of the output buffer.\<close>

lemma frame_fill:
  assumes "h * w \<le> length scr" and "h * (2 * w + 1) \<le> length mem"
  shows "draw_rows w h scr 0 0 mem 0
           = Inr (h * w, frame_text w h scr @ drop (h * (2 * w + 1)) mem, h * (2 * w + 1))"
  using draw_rows_run [of 0 h 0 w 0 scr mem] assms by (simp add: frame_text_def)

text \<open>A whole frame: print the text, clear the buffer, tick.\<close>

lemma DG_DrawFrame_run:
  assumes w: "DOOMGENERIC_RESX s = w" and h: "DOOMGENERIC_RESY s = h"
    and scr: "length (DG_ScreenBuffer s) = w * h"
    and room: "h * (2 * w + 1) < length (output_buffer s)"
    and nul: "output_buffer s ! (h * (2 * w + 1)) = CHR 0x00"
  shows "DG_DrawFrame s =
           decrementKeyCtrs
             (s\<lparr>output_buffer := replicate (h * (2 * w + 1) + 1) (CHR 0x00)
                    @ drop (h * (2 * w + 1) + 1) (output_buffer s),
                stdout := stdout s @ frame_text w h (DG_ScreenBuffer s)\<rparr>)"
proof -
  define n where "n = h * (2 * w + 1)"
  define ftxt where "ftxt = frame_text w h (DG_ScreenBuffer s)"
  define mem where "mem = ftxt @ drop n (output_buffer s)"
  have filled: "draw_rows w h (DG_ScreenBuffer s) 0 0 (output_buffer s) 0 = Inr (h * w, mem, n)"
    unfolding mem_def ftxt_def n_def using scr room by (intro frame_fill) (simp_all add: mult.commute)
  have ltxt: "length ftxt = n"
    by (simp add: ftxt_def n_def frame_text_props(1))
  have tail: "drop n (output_buffer s) = CHR 0x00 # drop (n + 1) (output_buffer s)"
    using room nul Cons_nth_drop_Suc [of n "output_buffer s"] by (simp add: n_def)
  have printed: "printf_s mem = Inr ftxt"
    unfolding mem_def tail by (rule printf_s_text) (simp add: ftxt_def frame_text_props(2))
  have room': "n < length (output_buffer s)"
    unfolding n_def by (rule room)
  have cleared: "memset0 mem (n + 1)
      = Inr (replicate (n + 1) (CHR 0x00) @ drop (n + 1) (output_buffer s))"
    using room' ltxt by (simp add: memset0_def mem_def)
  show ?thesis
    unfolding DG_DrawFrame_def w h filled
    by (simp only: sum.case prod.case printed cleared) (simp only: ftxt_def n_def)
qed

lemma printf_s_append:
  assumes "CHR 0x00 \<notin> set ftxt"
  shows "printf_s (ftxt @ rest)
           = (if CHR 0x00 \<in> set rest
              then Inr (ftxt @ takeWhile (\<lambda>c. c \<noteq> CHR 0x00) rest)
              else Inl OutOfBounds)"
proof -
  have "takeWhile (\<lambda>c. c \<noteq> CHR 0x00) (ftxt @ rest)
      = ftxt @ takeWhile (\<lambda>c. c \<noteq> CHR 0x00) rest"
    using assms by (intro takeWhile_append2) metis
  then show ?thesis
    using assms by (simp add: printf_s_def)
qed

text \<open>
  A whole frame from any output buffer longer than the frame: \<^verbatim>\<open>printf\<close> goes on
  behind the text of the frame to the first NUL of the block, or past its end.
\<close>

lemma DG_DrawFrame_cases:
  assumes w: "DOOMGENERIC_RESX s = w" and h: "DOOMGENERIC_RESY s = h"
    and scr: "length (DG_ScreenBuffer s) = w * h"
    and room: "h * (2 * w + 1) < length (output_buffer s)"
  shows "DG_DrawFrame s =
           (if CHR 0x00 \<in> set (drop (h * (2 * w + 1)) (output_buffer s))
            then decrementKeyCtrs
                   (s\<lparr>output_buffer := replicate (h * (2 * w + 1) + 1) (CHR 0x00)
                          @ drop (h * (2 * w + 1) + 1) (output_buffer s),
                      stdout := stdout s @ frame_text w h (DG_ScreenBuffer s)
                          @ takeWhile (\<lambda>c. c \<noteq> CHR 0x00)
                              (drop (h * (2 * w + 1)) (output_buffer s))\<rparr>)
            else Inl OutOfBounds)"
proof -
  define n where "n = h * (2 * w + 1)"
  define ftxt where "ftxt = frame_text w h (DG_ScreenBuffer s)"
  define rest where "rest = drop n (output_buffer s)"
  define mem where "mem = ftxt @ rest"
  have filled: "draw_rows w h (DG_ScreenBuffer s) 0 0 (output_buffer s) 0 = Inr (h * w, mem, n)"
    unfolding mem_def ftxt_def rest_def n_def
    using scr room by (intro frame_fill) (simp_all add: mult.commute)
  have ltxt: "length ftxt = n"
    by (simp add: ftxt_def n_def frame_text_props(1))
  have printed: "printf_s mem
      = (if CHR 0x00 \<in> set rest
         then Inr (ftxt @ takeWhile (\<lambda>c. c \<noteq> CHR 0x00) rest) else Inl OutOfBounds)"
    unfolding mem_def by (rule printf_s_append) (simp add: ftxt_def frame_text_props(2))
  have room': "n < length (output_buffer s)"
    unfolding n_def by (rule room)
  have cleared: "memset0 mem (n + 1)
      = Inr (replicate (n + 1) (CHR 0x00) @ drop (n + 1) (output_buffer s))"
    using room' ltxt by (simp add: memset0_def mem_def rest_def)
  show ?thesis
  proof (cases "CHR 0x00 \<in> set rest")
    case True
    then have p: "printf_s mem = Inr (ftxt @ takeWhile (\<lambda>c. c \<noteq> CHR 0x00) rest)"
      by (simp only: printed if_True)
    show ?thesis
      unfolding DG_DrawFrame_def w h filled
      using True
      by (simp only: sum.case prod.case p cleared)
        (simp only: ftxt_def n_def rest_def if_True append_assoc)
  next
    case False
    then have p: "printf_s mem = Inl OutOfBounds"
      by (simp only: printed if_False)
    show ?thesis
      unfolding DG_DrawFrame_def w h filled
      using False
      by (simp only: sum.case prod.case p) (simp only: n_def rest_def if_False)
  qed
qed

text \<open>
  A frame fits the buffer that \<^verbatim>\<open>DG_Init\<close> allocates, as long as the size has
  not wrapped.
\<close>

lemma frame_fits_output_buffer:
  assumes "21 * w * h + h + 4 < 2 ^ 32"
  shows "h * (2 * w + 1) < output_buffer_size w h"
proof -
  have "2 * (w * h) \<le> 21 * (w * h)"
    by simp
  then have "h * (2 * w + 1) < 21 * w * h + h + 4"
    by (simp add: algebra_simps)
  then show ?thesis
    using assms by (simp only: output_buffer_size_def mod_less)
qed

lemma output_buffer_size_160_100: "output_buffer_size 160 100 = 336104"
  by (simp add: output_buffer_size_def)

text \<open>
  What a frame writes and prints. For every \<open>w\<close> by \<open>h\<close> screen buffer, with an output
  buffer longer than the \<open>h * (2 * w + 1)\<close> bytes of a frame: the two loops of
  \<^verbatim>\<open>DG_DrawFrame\<close> return and have written exactly \<open>frame_text\<close> at the start of the
  output buffer, that is, row by row from the top and within a row from the left, the
  glyph of each pixel twice and a newline after each row; this text holds exactly \<open>h\<close>
  newlines and \<open>2 * w * h\<close> other characters. When the byte of the buffer behind the
  text is NUL, the whole call returns and \<^verbatim>\<open>printf\<close> has appended exactly this text
  to the output stream, and the byte is NUL again afterwards. For a screen of black
  pixels the text is \<open>h\<close> lines of \<open>2 * w\<close> copies of the first character of the
  ramp, a space, each followed by a newline.
\<close>

lemma render_frame_text:
  assumes w: "DOOMGENERIC_RESX s = w" and h: "DOOMGENERIC_RESY s = h"
    and scr: "length (DG_ScreenBuffer s) = w * h"
    and room: "h * (2 * w + 1) < length (output_buffer s)"
    and ok: "tables_ok s"
  shows "draw_rows w h (DG_ScreenBuffer s) 0 0 (output_buffer s) 0
           = Inr (h * w,
                  frame_text w h (DG_ScreenBuffer s) @ drop (h * (2 * w + 1)) (output_buffer s),
                  h * (2 * w + 1))
     \<and> (output_buffer s ! (h * (2 * w + 1)) = CHR 0x00 \<longrightarrow>
          (\<exists>t. DG_DrawFrame s = Inr t
             \<and> stdout t = stdout s @ frame_text w h (DG_ScreenBuffer s)
             \<and> length (output_buffer t) = length (output_buffer s)
             \<and> output_buffer t ! (h * (2 * w + 1)) = CHR 0x00))
     \<and> count_list (frame_text w h (DG_ScreenBuffer s)) (CHR 0x0A) = h
     \<and> length (filter (\<lambda>c. c \<noteq> CHR 0x0A) (frame_text w h (DG_ScreenBuffer s))) = 2 * w * h
     \<and> ((\<forall>p \<in> set (DG_ScreenBuffer s). pixel_r p = 0 \<and> pixel_g p = 0 \<and> pixel_b p = 0) \<longrightarrow>
          frame_text w h (DG_ScreenBuffer s)
            = concat (replicate h (replicate (2 * w) (hd grad) @ [CHR 0x0A])))
     \<and> hd grad = CHR '' ''"
proof -
  define n where "n = h * (2 * w + 1)"
  define cleared where "cleared = replicate (n + 1) (CHR 0x00) @ drop (n + 1) (output_buffer s)"
  have room': "n < length (output_buffer s)"
    unfolding n_def by (rule room)
  have filled: "draw_rows w h (DG_ScreenBuffer s) 0 0 (output_buffer s) 0
           = Inr (h * w,
                  frame_text w h (DG_ScreenBuffer s) @ drop (h * (2 * w + 1)) (output_buffer s),
                  h * (2 * w + 1))"
    using scr room by (intro frame_fill) (simp_all add: mult.commute)
  have printed: "\<exists>t. DG_DrawFrame s = Inr t
             \<and> stdout t = stdout s @ frame_text w h (DG_ScreenBuffer s)
             \<and> length (output_buffer t) = length (output_buffer s)
             \<and> output_buffer t ! (h * (2 * w + 1)) = CHR 0x00"
    if nul: "output_buffer s ! (h * (2 * w + 1)) = CHR 0x00"
  proof -
    define s' where "s' = s\<lparr>output_buffer := cleared,
        stdout := stdout s @ frame_text w h (DG_ScreenBuffer s)\<rparr>"
    have run: "DG_DrawFrame s = decrementKeyCtrs s'"
      unfolding s'_def cleared_def n_def by (rule DG_DrawFrame_run [OF w h scr room nul])
    have ok': "tables_ok s'"
      using ok by (simp add: s'_def tables_ok_def)
    obtain q w' where t: "decrementKeyCtrs s'
        = Inr (s'\<lparr>keyHold := aged 0 (keyHold s'), s_KeyQueue := q, s_KeyQueueWriteIndex := w'\<rparr>)"
      using tick_effect [OF ok'] by blast
    have lc: "length cleared = length (output_buffer s)"
      using room' by (simp add: cleared_def)
    have "cleared ! n = replicate (n + 1) (CHR 0x00) ! n"
      unfolding cleared_def by (rule nth_append_left) simp
    also have "\<dots> = CHR 0x00"
      by (rule nth_replicate) simp
    finally have "cleared ! n = CHR 0x00" .
    then show ?thesis
      unfolding run t by (simp add: s'_def lc n_def)
  qed
  have first: "hd grad = CHR '' ''"
    by (simp add: grad_def)
  show ?thesis
    using filled printed frame_text_props(3,4) [of w h "DG_ScreenBuffer s"]
      frame_text_black [OF scr] first
    by blast
qed

text \<open>The all-black 160 by 100 screen with a zero-filled output buffer.\<close>

lemma render_black_screen:
  "DOOMGENERIC_RESX black_screen = 160 \<and> DOOMGENERIC_RESY black_screen = 100
   \<and> length (DG_ScreenBuffer black_screen) = 160 * 100
   \<and> 100 * (2 * 160 + 1) < length (output_buffer black_screen)
   \<and> tables_ok black_screen
   \<and> output_buffer black_screen ! (100 * (2 * 160 + 1)) = CHR 0x00
   \<and> DG_ScreenBuffer black_screen
       = replicate 16000 \<lparr>pixel_b = 0, pixel_g = 0, pixel_r = 0, pixel_a = 0\<rparr>
   \<and> (\<exists>t. DG_DrawFrame black_screen = Inr t
          \<and> stdout t = concat (replicate 100 (replicate 320 (CHR '' '') @ [CHR 0x0A])))"
proof -
  have w: "DOOMGENERIC_RESX black_screen = 160" and h: "DOOMGENERIC_RESY black_screen = 100"
    and scr: "length (DG_ScreenBuffer black_screen) = 160 * 100"
    and room: "100 * (2 * 160 + 1) < length (output_buffer black_screen)"
    and nul: "output_buffer black_screen ! (100 * (2 * 160 + 1)) = CHR 0x00"
    and out: "stdout black_screen = []"
    and black: "\<forall>p \<in> set (DG_ScreenBuffer black_screen). pixel_r p = 0 \<and> pixel_g p = 0 \<and> pixel_b p = 0"
    by (simp_all add: black_screen_def start_globals_def output_buffer_size_160_100)
  have ok: "tables_ok black_screen"
    by (simp add: black_screen_def start_globals_def example_keys_def tables_ok_def
        KEYQUEUE_SIZE_def)
  from render_frame_text [OF w h scr room ok] nul black out
  have "\<exists>t. DG_DrawFrame black_screen = Inr t
          \<and> stdout t = concat (replicate 100 (replicate (2 * 160) (CHR '' '') @ [CHR 0x0A]))"
    by auto
  moreover have "DG_ScreenBuffer black_screen
       = replicate 16000 \<lparr>pixel_b = 0, pixel_g = 0, pixel_r = 0, pixel_a = 0\<rparr>"
    by (simp add: black_screen_def)
  ultimately show ?thesis
    using w h scr room ok nul by simp
qed

text \<open>
  Claim C5 says that one render pass emits exactly \<open>h\<close> newlines and \<open>2 * w * h\<close>
  glyph characters. The two loops write exactly that text into the output buffer, but
  the code writes no NUL behind it before \<^verbatim>\<open>printf("%s", output_buffer)\<close> prints the
  buffer, and \<^verbatim>\<open>DG_Init\<close> does not clear the block it allocates: only the
  \<^verbatim>\<open>memset\<close> at the end of a frame leaves a NUL there, for the next frame. On a
  first frame into a block with stale bytes the call prints the stale bytes behind the
  text as well. Here, at the resolution 160 by 100 with an all-black screen and a
  block of the size \<^verbatim>\<open>DG_Init\<close> computes, the output is the 100 lines of 320 spaces
  followed by \<open>XX\<close>: 32002 characters other than newlines, where the claim has
  \<open>2 * 160 * 100 = 32000\<close>.
\<close>

theorem render_prints_stale_bytes:
  "DOOMGENERIC_RESX stale_screen = 160 \<and> DOOMGENERIC_RESY stale_screen = 100
   \<and> length (DG_ScreenBuffer stale_screen) = 160 * 100
   \<and> length (output_buffer stale_screen) = output_buffer_size 160 100
   \<and> map_sum id stdout (DG_DrawFrame stale_screen)
       = Inr (concat (replicate 100 (replicate 320 (CHR '' '') @ [CHR 0x0A])) @ ''XX'')
   \<and> length (filter (\<lambda>c. c \<noteq> CHR 0x0A)
         (concat (replicate 100 (replicate 320 (CHR '' '') @ [CHR 0x0A])) @ ''XX'')) = 32002
   \<and> 2 * 160 * 100 = (32000 :: nat)"
proof -
  have w: "DOOMGENERIC_RESX stale_screen = 160" and h: "DOOMGENERIC_RESY stale_screen = 100"
    and scr: "length (DG_ScreenBuffer stale_screen) = 160 * 100"
    and len: "length (output_buffer stale_screen) = output_buffer_size 160 100"
    and room: "100 * (2 * 160 + 1) < length (output_buffer stale_screen)"
    and out: "stdout stale_screen = []"
    and black: "\<forall>p \<in> set (DG_ScreenBuffer stale_screen).
        pixel_r p = 0 \<and> pixel_g p = 0 \<and> pixel_b p = 0"
    by (simp_all add: stale_screen_def black_screen_def start_globals_def
        output_buffer_size_160_100)
  have ok: "tables_ok stale_screen"
    by (simp add: stale_screen_def black_screen_def start_globals_def example_keys_def
        tables_ok_def KEYQUEUE_SIZE_def)
  have ob: "output_buffer stale_screen
      = replicate 32100 (CHR ''X'') @ ''XX'' @ CHR 0x00 # replicate 304001 (CHR 0x00)"
  proof -
    have "replicate 32102 (CHR ''X'') = replicate 32100 (CHR ''X'') @ replicate 2 (CHR ''X'')"
      by (simp only: replicate_add [symmetric]) simp
    moreover have "replicate 304002 (CHR 0x00) = replicate 1 (CHR 0x00) @ replicate 304001 (CHR 0x00)"
      by (simp only: replicate_add [symmetric]) simp
    ultimately show ?thesis
      by (simp add: stale_screen_def numeral_2_eq_2)
  qed
  have rest: "drop (100 * (2 * 160 + 1)) (output_buffer stale_screen)
      = ''XX'' @ CHR 0x00 # replicate 304001 (CHR 0x00)"
    unfolding ob by simp
  have stale: "takeWhile (\<lambda>c. c \<noteq> CHR 0x00) (''XX'' @ CHR 0x00 # replicate 304001 (CHR 0x00)) = ''XX''"
    by simp
  have ftext: "frame_text 160 100 (DG_ScreenBuffer stale_screen)
      = concat (replicate 100 (replicate 320 (CHR '' '') @ [CHR 0x0A]))"
    using frame_text_black [OF scr black] by (simp add: grad_def)
  define s' where "s' = stale_screen
      \<lparr>output_buffer := replicate (100 * (2 * 160 + 1) + 1) (CHR 0x00)
           @ drop (100 * (2 * 160 + 1) + 1) (output_buffer stale_screen),
       stdout := stdout stale_screen @ frame_text 160 100 (DG_ScreenBuffer stale_screen)
           @ takeWhile (\<lambda>c. c \<noteq> CHR 0x00)
               (drop (100 * (2 * 160 + 1)) (output_buffer stale_screen))\<rparr>"
  have run: "DG_DrawFrame stale_screen = decrementKeyCtrs s'"
    unfolding s'_def using DG_DrawFrame_cases [OF w h scr room] rest
    by (simp only: if_True) simp
  have ok': "tables_ok s'"
    using ok by (simp add: s'_def tables_ok_def)
  obtain q w' where t: "decrementKeyCtrs s'
      = Inr (s'\<lparr>keyHold := aged 0 (keyHold s'), s_KeyQueue := q, s_KeyQueueWriteIndex := w'\<rparr>)"
    using tick_effect [OF ok'] by blast
  have "map_sum id stdout (DG_DrawFrame stale_screen) = Inr (stdout s')"
    unfolding run t by simp
  also have "stdout s' = concat (replicate 100 (replicate 320 (CHR '' '') @ [CHR 0x0A])) @ ''XX''"
    unfolding s'_def by (simp only: rest stale ftext out) simp
  finally have printed: "map_sum id stdout (DG_DrawFrame stale_screen)
       = Inr (concat (replicate 100 (replicate 320 (CHR '' '') @ [CHR 0x0A])) @ ''XX'')" .
  have "length (filter (\<lambda>c. c \<noteq> CHR 0x0A) (concat (replicate 100 (replicate 320 (CHR '' '') @ [CHR 0x0A]))))
      = 2 * 160 * 100"
    using frame_text_props(4) [of 160 100 "DG_ScreenBuffer stale_screen"] by (simp only: ftext)
  then have count: "length (filter (\<lambda>c. c \<noteq> CHR 0x0A)
         (concat (replicate 100 (replicate 320 (CHR '' '') @ [CHR 0x0A])) @ ''XX'')) = 32002"
    by simp
  show ?thesis
    using w h scr len printed count by simp
qed

lemma fault_only: "(e :: fault) = OutOfBounds"
  by (cases e)

text \<open>
  The loop of \<^verbatim>\<open>decrementKeyCtrs\<close> in any state: it neither reads nor writes the
  output buffer and the output stream, it leaves the read cursor, the table of hold
  keys, the screen buffer and the resolution as they are, and it changes nothing when
  no hold counter is positive.
\<close>

lemma tick_loop_render:
  "decrementKeyCtrs_loop i (s\<lparr>output_buffer := m, stdout := out\<rparr>)
     = map_sum id (\<lambda>t. t\<lparr>output_buffer := m, stdout := out\<rparr>) (decrementKeyCtrs_loop i s)"
proof (induction i s rule: decrementKeyCtrs_loop.induct)
  case (1 i s)
  show ?case
  proof (cases "i < KEY_HOLD_KEYS")
    case False
    then show ?thesis
      by (simp add: decrementKeyCtrs_loop.simps [of i])
  next
    case True
    show ?thesis
    proof (cases "0 < keyHold s ! i")
      case False
      then show ?thesis
        using True "1.IH"(3) by (simp add: decrementKeyCtrs_loop.simps [of i])
    next
      case pos: True
      define s1 where "s1 = s\<lparr>keyHold := (keyHold s)[i := keyHold s ! i - 1]\<rparr>"
      have upd: "s\<lparr>output_buffer := m, stdout := out,
              keyHold := (keyHold s)[i := keyHold s ! i - 1]\<rparr>
          = s1\<lparr>output_buffer := m, stdout := out\<rparr>"
        by (simp add: s1_def)
      show ?thesis
      proof (cases "keyHold s1 ! i = 0")
        case False
        have nz: "(keyHold s)[i := keyHold s ! i - 1] ! i \<noteq> 0"
          using False by (simp add: s1_def)
        have l: "decrementKeyCtrs_loop i (s\<lparr>output_buffer := m, stdout := out\<rparr>)
            = decrementKeyCtrs_loop (i + 1) (s1\<lparr>output_buffer := m, stdout := out\<rparr>)"
          using True pos nz False
          by (subst decrementKeyCtrs_loop.simps) (simp add: Let_def upd)
        have r: "decrementKeyCtrs_loop i s = decrementKeyCtrs_loop (i + 1) s1"
          using True pos False
          by (subst decrementKeyCtrs_loop.simps) (simp add: Let_def s1_def)
        show ?thesis
          unfolding l r using True pos False by (intro "1.IH"(2)) (simp_all add: s1_def)
      next
        case zero: True
        show ?thesis
        proof (cases "addKeyToQueue 0 (keyHoldKeys s1 ! i) s1")
          case (Inl e)
          have l: "decrementKeyCtrs_loop i (s\<lparr>output_buffer := m, stdout := out\<rparr>) = Inl e"
            using True pos zero Inl
            by (subst decrementKeyCtrs_loop.simps)
              (simp add: Let_def upd addKeyToQueue_render)
          have r: "decrementKeyCtrs_loop i s = Inl e"
            using True pos zero Inl
            by (subst decrementKeyCtrs_loop.simps) (simp add: Let_def s1_def)
          show ?thesis
            unfolding l r by simp
        next
          case (Inr s2)
          have l: "decrementKeyCtrs_loop i (s\<lparr>output_buffer := m, stdout := out\<rparr>)
              = decrementKeyCtrs_loop (i + 1) (s2\<lparr>output_buffer := m, stdout := out\<rparr>)"
            using True pos zero Inr
            by (subst decrementKeyCtrs_loop.simps)
              (simp add: Let_def upd addKeyToQueue_render)
          have r: "decrementKeyCtrs_loop i s = decrementKeyCtrs_loop (i + 1) s2"
            using True pos zero Inr
            by (subst decrementKeyCtrs_loop.simps) (simp add: Let_def s1_def)
          show ?thesis
            unfolding l r using True pos zero Inr
            by (intro "1.IH"(1) [of s1 s2]) (simp_all add: s1_def)
        qed
      qed
    qed
  qed
qed

lemma addKeyToQueue_frame:
  assumes "addKeyToQueue p k s = Inr t"
  shows "s_KeyQueueReadIndex t = s_KeyQueueReadIndex s \<and> keyHoldKeys t = keyHoldKeys s
         \<and> DG_ScreenBuffer t = DG_ScreenBuffer s
         \<and> DOOMGENERIC_RESX t = DOOMGENERIC_RESX s \<and> DOOMGENERIC_RESY t = DOOMGENERIC_RESY s"
  using assms by (auto simp add: addKeyToQueue_def Let_def split: if_splits)

lemma tick_loop_frame:
  assumes "decrementKeyCtrs_loop i s = Inr u"
  shows "s_KeyQueueReadIndex u = s_KeyQueueReadIndex s \<and> keyHoldKeys u = keyHoldKeys s
         \<and> DG_ScreenBuffer u = DG_ScreenBuffer s
         \<and> DOOMGENERIC_RESX u = DOOMGENERIC_RESX s \<and> DOOMGENERIC_RESY u = DOOMGENERIC_RESY s"
  using assms
proof (induction i s rule: decrementKeyCtrs_loop.induct)
  case (1 i s)
  show ?case
  proof (cases "i < KEY_HOLD_KEYS")
    case False
    then have "u = s"
      using "1.prems" by (simp add: decrementKeyCtrs_loop.simps [of i])
    then show ?thesis by simp
  next
    case True
    show ?thesis
    proof (cases "0 < keyHold s ! i")
      case False
      then have "decrementKeyCtrs_loop (i + 1) s = Inr u"
        using True "1.prems" by (simp add: decrementKeyCtrs_loop.simps [of i])
      then show ?thesis
        using True False by (intro "1.IH"(3)) simp_all
    next
      case pos: True
      define s1 where "s1 = s\<lparr>keyHold := (keyHold s)[i := keyHold s ! i - 1]\<rparr>"
      show ?thesis
      proof (cases "keyHold s1 ! i = 0")
        case False
        then have "decrementKeyCtrs_loop (i + 1) s1 = Inr u"
          using True pos "1.prems"
          by (simp add: decrementKeyCtrs_loop.simps [of i] Let_def s1_def)
        then have "s_KeyQueueReadIndex u = s_KeyQueueReadIndex s1 \<and> keyHoldKeys u = keyHoldKeys s1
         \<and> DG_ScreenBuffer u = DG_ScreenBuffer s1
         \<and> DOOMGENERIC_RESX u = DOOMGENERIC_RESX s1 \<and> DOOMGENERIC_RESY u = DOOMGENERIC_RESY s1"
          using True pos False by (intro "1.IH"(2)) (simp_all add: s1_def)
        then show ?thesis
          by (simp add: s1_def)
      next
        case zero: True
        then obtain s2 where add: "addKeyToQueue 0 (keyHoldKeys s1 ! i) s1 = Inr s2"
          and rest: "decrementKeyCtrs_loop (i + 1) s2 = Inr u"
          using True pos "1.prems"
          by (auto simp add: decrementKeyCtrs_loop.simps [of i] Let_def s1_def split: sum.splits)
        have "s_KeyQueueReadIndex u = s_KeyQueueReadIndex s2 \<and> keyHoldKeys u = keyHoldKeys s2
         \<and> DG_ScreenBuffer u = DG_ScreenBuffer s2
         \<and> DOOMGENERIC_RESX u = DOOMGENERIC_RESX s2 \<and> DOOMGENERIC_RESY u = DOOMGENERIC_RESY s2"
          using True pos zero add rest by (intro "1.IH"(1) [of s1 s2]) (simp_all add: s1_def)
        then show ?thesis
          using addKeyToQueue_frame [OF add] by (simp add: s1_def)
      qed
    qed
  qed
qed

lemma tick_loop_idle:
  assumes "\<forall>j<KEY_HOLD_KEYS. keyHold s ! j \<le> 0"
  shows "decrementKeyCtrs_loop i s = Inr s"
  using assms
proof (induction i s rule: decrementKeyCtrs_loop.induct)
  case (1 i s)
  show ?case
  proof (cases "i < KEY_HOLD_KEYS")
    case False
    then show ?thesis
      by (simp add: decrementKeyCtrs_loop.simps [of i])
  next
    case True
    then have no: "\<not> 0 < keyHold s ! i"
      using "1.prems" by (simp add: not_less)
    have "decrementKeyCtrs_loop i s = decrementKeyCtrs_loop (i + 1) s"
      using True no by (simp add: decrementKeyCtrs_loop.simps [of i])
    also have "\<dots> = Inr s"
      using True no "1.prems" by (intro "1.IH"(3)) simp_all
    finally show ?thesis .
  qed
qed

text \<open>
  Whatever the renderer's part of a frame does, a frame that returns has changed the
  other globals as one tick does.
\<close>

lemma DG_DrawFrame_tick:
  "DG_DrawFrame s = Inl OutOfBounds
     \<or> (\<exists>u m out. decrementKeyCtrs s = Inr u
            \<and> DG_DrawFrame s = Inr (u\<lparr>output_buffer := m, stdout := out\<rparr>))"
proof (cases "draw_rows (DOOMGENERIC_RESX s) (DOOMGENERIC_RESY s) (DG_ScreenBuffer s) 0 0
    (output_buffer s) 0")
  case (Inl e)
  then show ?thesis
    by (simp add: DG_DrawFrame_def fault_only [of e])
next
  case (Inr r)
  obtain pixel mem buf where r: "r = (pixel, mem, buf)"
    by (cases r)
  show ?thesis
  proof (cases "printf_s mem")
    case (Inl e)
    then show ?thesis
      using Inr r by (simp add: DG_DrawFrame_def fault_only [of e])
  next
    case printed: (Inr ftxt)
    show ?thesis
    proof (cases "memset0 mem (buf + 1)")
      case (Inl e)
      then show ?thesis
        using Inr r printed by (simp add: DG_DrawFrame_def fault_only [of e])
    next
      case cleared: (Inr mem1)
      have run: "DG_DrawFrame s
          = map_sum id (\<lambda>t. t\<lparr>output_buffer := mem1, stdout := stdout s @ ftxt\<rparr>)
              (decrementKeyCtrs s)"
        using Inr r printed cleared
        by (simp add: DG_DrawFrame_def decrementKeyCtrs_def tick_loop_render)
      show ?thesis
      proof (cases "decrementKeyCtrs s")
        case (Inl e)
        then show ?thesis
          unfolding run by (simp add: fault_only [of e])
      next
        case (Inr u)
        then show ?thesis
          unfolding run by auto
      qed
    qed
  qed
qed

text \<open>
  Claim C8, as stated, fails: \<^verbatim>\<open>DG_DrawFrame\<close> ends with a call of
  \<^verbatim>\<open>decrementKeyCtrs\<close>. After a press of the first key of the hold table, one frame
  takes the key's hold counter from 2 to 1, and the next frame takes it to 0, writes
  the release event into slot 1 of the queue and moves the write cursor from 1 to 2.
\<close>

theorem render_changes_key_state:
  "map_sum id key_state (pressKey 0xA3 frame_demo)
     = Inr (0x1A3 # replicate 15 0, 1, 0, [2, 0, 0, 0, 0, 0, 0])
   \<and> map_sum id key_state (then_do (pressKey 0xA3 frame_demo) DG_DrawFrame)
     = Inr (0x1A3 # replicate 15 0, 1, 0, [1, 0, 0, 0, 0, 0, 0])
   \<and> map_sum id key_state
        (then_do (then_do (pressKey 0xA3 frame_demo) DG_DrawFrame) DG_DrawFrame)
     = Inr (0x1A3 # 0xA3 # replicate 14 0, 2, 0, [0, 0, 0, 0, 0, 0, 0])
   \<and> map_sum id key_state (then_do (pressKey 0xA3 frame_demo) DG_DrawFrame)
     \<noteq> map_sum id key_state (pressKey 0xA3 frame_demo)
   \<and> map_sum id key_state
        (then_do (then_do (pressKey 0xA3 frame_demo) DG_DrawFrame) DG_DrawFrame)
     \<noteq> map_sum id key_state (then_do (pressKey 0xA3 frame_demo) DG_DrawFrame)"
  by code_simp

text \<open>
  Claim C8, amended. From every starting state, a call of \<^verbatim>\<open>DG_DrawFrame\<close> that
  returns has changed the globals other than the output buffer and the output stream
  exactly as one call of \<^verbatim>\<open>decrementKeyCtrs\<close> from that state does, which then
  returns as well: the read cursor, the table of hold keys, the screen buffer and the
  resolution are unchanged, and when no hold counter is positive the tick changes
  nothing, so that the queue slots, the write cursor and the hold counters are
  unchanged too. When the arrays have their declared sizes, the write cursor is inside
  the queue, the screen buffer holds \<open>w * h\<close> pixels and the output buffer is longer
  than the \<open>h * (2 * w + 1)\<close> bytes of a frame, the call returns exactly when the
  output buffer holds a NUL at or behind the end of the frame's text; otherwise
  \<^verbatim>\<open>printf\<close> reads past the end of the block.
\<close>

theorem render_is_print_clear_tick:
  "(DG_DrawFrame s = Inl OutOfBounds
      \<or> (\<exists>u m out. decrementKeyCtrs s = Inr u
             \<and> DG_DrawFrame s = Inr (u\<lparr>output_buffer := m, stdout := out\<rparr>)
             \<and> s_KeyQueueReadIndex u = s_KeyQueueReadIndex s
             \<and> keyHoldKeys u = keyHoldKeys s
             \<and> DG_ScreenBuffer u = DG_ScreenBuffer s
             \<and> DOOMGENERIC_RESX u = DOOMGENERIC_RESX s
             \<and> DOOMGENERIC_RESY u = DOOMGENERIC_RESY s
             \<and> ((\<forall>j<KEY_HOLD_KEYS. keyHold s ! j \<le> 0) \<longrightarrow> u = s)))
   \<and> (tables_ok s
        \<and> length (DG_ScreenBuffer s) = DOOMGENERIC_RESX s * DOOMGENERIC_RESY s
        \<and> DOOMGENERIC_RESY s * (2 * DOOMGENERIC_RESX s + 1) < length (output_buffer s)
        \<longrightarrow> ((\<exists>t. DG_DrawFrame s = Inr t) \<longleftrightarrow>
              CHR 0x00 \<in> set (drop (DOOMGENERIC_RESY s * (2 * DOOMGENERIC_RESX s + 1))
                                (output_buffer s))))"
proof
  show "DG_DrawFrame s = Inl OutOfBounds
      \<or> (\<exists>u m out. decrementKeyCtrs s = Inr u
             \<and> DG_DrawFrame s = Inr (u\<lparr>output_buffer := m, stdout := out\<rparr>)
             \<and> s_KeyQueueReadIndex u = s_KeyQueueReadIndex s
             \<and> keyHoldKeys u = keyHoldKeys s
             \<and> DG_ScreenBuffer u = DG_ScreenBuffer s
             \<and> DOOMGENERIC_RESX u = DOOMGENERIC_RESX s
             \<and> DOOMGENERIC_RESY u = DOOMGENERIC_RESY s
             \<and> ((\<forall>j<KEY_HOLD_KEYS. keyHold s ! j \<le> 0) \<longrightarrow> u = s))"
  proof (cases "DG_DrawFrame s = Inl OutOfBounds")
    case True
    then show ?thesis by simp
  next
    case False
    then obtain u m out where tick: "decrementKeyCtrs s = Inr u"
      and frame: "DG_DrawFrame s = Inr (u\<lparr>output_buffer := m, stdout := out\<rparr>)"
      using DG_DrawFrame_tick [of s] by blast
    have same: "s_KeyQueueReadIndex u = s_KeyQueueReadIndex s \<and> keyHoldKeys u = keyHoldKeys s
         \<and> DG_ScreenBuffer u = DG_ScreenBuffer s
         \<and> DOOMGENERIC_RESX u = DOOMGENERIC_RESX s \<and> DOOMGENERIC_RESY u = DOOMGENERIC_RESY s"
      using tick unfolding decrementKeyCtrs_def by (rule tick_loop_frame)
    have idle: "u = s" if "\<forall>j<KEY_HOLD_KEYS. keyHold s ! j \<le> 0"
      using tick_loop_idle [OF that, of 0] tick by (simp add: decrementKeyCtrs_def)
    show ?thesis
      using tick frame same idle by blast
  qed
  show "tables_ok s
        \<and> length (DG_ScreenBuffer s) = DOOMGENERIC_RESX s * DOOMGENERIC_RESY s
        \<and> DOOMGENERIC_RESY s * (2 * DOOMGENERIC_RESX s + 1) < length (output_buffer s)
        \<longrightarrow> ((\<exists>t. DG_DrawFrame s = Inr t) \<longleftrightarrow>
              CHR 0x00 \<in> set (drop (DOOMGENERIC_RESY s * (2 * DOOMGENERIC_RESX s + 1))
                                (output_buffer s)))"
  proof (intro impI, elim conjE)
    assume ok: "tables_ok s"
      and scr: "length (DG_ScreenBuffer s) = DOOMGENERIC_RESX s * DOOMGENERIC_RESY s"
      and room: "DOOMGENERIC_RESY s * (2 * DOOMGENERIC_RESX s + 1) < length (output_buffer s)"
    obtain q w' where tick: "decrementKeyCtrs s
        = Inr (s\<lparr>keyHold := aged 0 (keyHold s), s_KeyQueue := q, s_KeyQueueWriteIndex := w'\<rparr>)"
      using tick_effect [OF ok] by blast
    show "(\<exists>t. DG_DrawFrame s = Inr t) \<longleftrightarrow>
        CHR 0x00 \<in> set (drop (DOOMGENERIC_RESY s * (2 * DOOMGENERIC_RESX s + 1)) (output_buffer s))"
    proof (cases "CHR 0x00 \<in> set (drop (DOOMGENERIC_RESY s * (2 * DOOMGENERIC_RESX s + 1))
        (output_buffer s))")
      case True
      have "\<exists>t. DG_DrawFrame s = Inr t"
        unfolding DG_DrawFrame_cases [OF refl refl scr room] using True
        by (simp only: if_True tick_render [OF ok] tick) simp
      then show ?thesis
        using True by simp
    next
      case False
      have "DG_DrawFrame s = Inl OutOfBounds"
        unfolding DG_DrawFrame_cases [OF refl refl scr room] using False by (simp only: if_False)
      then show ?thesis
        using False by simp
    qed
  qed
qed

theorem render_is_print_clear_tick_witness:
  "tables_ok frame_demo
   \<and> keyHold frame_demo = replicate 7 0
   \<and> length (DG_ScreenBuffer frame_demo) = DOOMGENERIC_RESX frame_demo * DOOMGENERIC_RESY frame_demo
   \<and> DOOMGENERIC_RESY frame_demo * (2 * DOOMGENERIC_RESX frame_demo + 1)
       < length (output_buffer frame_demo)
   \<and> CHR 0x00 \<in> set (drop (DOOMGENERIC_RESY frame_demo * (2 * DOOMGENERIC_RESX frame_demo + 1))
                         (output_buffer frame_demo))
   \<and> decrementKeyCtrs frame_demo = Inr frame_demo
   \<and> (\<exists>m out. DG_DrawFrame frame_demo = Inr (frame_demo\<lparr>output_buffer := m, stdout := out\<rparr>))"
proof -
  have ok: "tables_ok frame_demo"
    by (simp add: frame_demo_def example_keys_def tables_ok_def KEYQUEUE_SIZE_def)
  have hold: "keyHold frame_demo = replicate 7 0"
    by (simp add: frame_demo_def)
  have idle: "\<forall>j<KEY_HOLD_KEYS. keyHold frame_demo ! j \<le> 0"
    by (simp add: frame_demo_def KEY_HOLD_KEYS_def)
  have scr: "length (DG_ScreenBuffer frame_demo)
      = DOOMGENERIC_RESX frame_demo * DOOMGENERIC_RESY frame_demo"
    and room: "DOOMGENERIC_RESY frame_demo * (2 * DOOMGENERIC_RESX frame_demo + 1)
       < length (output_buffer frame_demo)"
    and nul: "CHR 0x00 \<in> set (drop (DOOMGENERIC_RESY frame_demo
        * (2 * DOOMGENERIC_RESX frame_demo + 1)) (output_buffer frame_demo))"
    by (simp_all add: frame_demo_def)
  note inst = render_is_print_clear_tick [of frame_demo]
  have "\<exists>t. DG_DrawFrame frame_demo = Inr t"
    using inst ok scr room nul by blast
  then have "DG_DrawFrame frame_demo \<noteq> Inl OutOfBounds"
    by auto
  then obtain u m out where tick: "decrementKeyCtrs frame_demo = Inr u"
    and frame: "DG_DrawFrame frame_demo = Inr (u\<lparr>output_buffer := m, stdout := out\<rparr>)"
    and unchanged: "(\<forall>j<KEY_HOLD_KEYS. keyHold frame_demo ! j \<le> 0) \<longrightarrow> u = frame_demo"
    using inst by blast
  have u: "u = frame_demo"
    using unchanged idle by blast
  show ?thesis
    using ok hold scr room nul tick frame unfolding u by blast
qed

section \<open>Concrete runs\<close>

text \<open>
  A concrete run: a press of the key \<open>0xAD\<close> and two ticks from the start state. The
  first tick enqueues nothing, the second the release event; the consumer then reads
  the press, the release, and an empty queue.
\<close>

lemma hold_run:
  "map_sum id fst (then_do (pressKey 0xAD (start_globals example_keys)) (ticks 2))
     = Inr [[], [(0, 0xAD)]]"
  by code_simp

lemma hold_run_dequeued:
  "map_sum id fst
     (then_do (map_sum id snd (then_do (pressKey 0xAD (start_globals example_keys)) (ticks 2)))
        (dequeue_n 3))
     = Inr [Some (1, 0xAD), Some (0, 0xAD), None]"
  by code_simp

text \<open>
  The scenario of the specification: a press of the space key, which is not in the
  hold table, then two polls.
\<close>

lemma space_press_run:
  "map_sum id fst (then_do (pressKey 0x20 (start_globals example_keys)) (dequeue_n 2))
     = Inr [Some (1, 0x20), None]"
  by code_simp

text \<open>A concrete frame: a black and a white pixel print as two spaces and two dollars.\<close>

lemma frame_demo_prints:
  "map_sum id stdout (DG_DrawFrame frame_demo) = Inr (''  $$'' @ [CHR 0x0A])"
  by code_simp

text \<open>
  The same small frame into a block of the size \<^verbatim>\<open>DG_Init\<close> computes for 2 by 1
  (47 bytes) with seven stale bytes, and into a block with no NUL at all.
\<close>

lemma frame_demo_stale:
  "map_sum id stdout
     (DG_DrawFrame (frame_demo\<lparr>output_buffer := ''XXXXXXX'' @ replicate 40 (CHR 0x00)\<rparr>))
     = Inr (''  $$'' @ [CHR 0x0A] @ ''XX'')"
  "DG_DrawFrame (frame_demo\<lparr>output_buffer := replicate 47 (CHR ''X'')\<rparr>) = Inl OutOfBounds"
  by code_simp+

end
